theory Spec2Isabelle
  imports Main "HOL-Library.Sublist" "HOL-Library.Multiset" "HOL-Library.Char_ord"
    "HOL-Library.List_Lexorder" "HOL-Library.Signed_Division"
begin

section \<open>The streaming path: \<open>FetchICS\<close> (fetcher.go)\<close>

subsection \<open>The environment: \<open>http.Get\<close> and \<open>bufio.Reader\<close>\<close>

text \<open>
  Go strings are byte sequences, here \<^typ>\<open>string\<close>. The two bytes the scanner cares
  about:
\<close>

definition LF :: char where "LF = CHR 0x0A"
definition CR :: char where "CR = CHR 0x0D"

text \<open>
  A response body is the bytes the connection delivers, followed by the error that the
  underlying \<open>Read\<close> reports once they are used up: \<open>io.EOF\<close> for a body that ends
  normally, any other error for a body that is cut off.
\<close>

datatype io_error = EOF | ReadFailure

text \<open>\<open>http.Get(url)\<close> returns either an error or a response with such a body.\<close>

datatype http_result = GetFailed | Response string io_error

record Reader =
  pending :: string
  fault :: io_error

text \<open>
  \<open>until_delim d bs\<close> cuts \<open>bs\<close> after the first occurrence of \<open>d\<close>: the part up to
  and including the delimiter, and the rest. \<open>None\<close> when \<open>d\<close> does not occur.
\<close>

fun until_delim :: "char \<Rightarrow> string \<Rightarrow> (string \<times> string) option" where
  "until_delim d [] = None"
| "until_delim d (c # cs) =
     (if c = d then Some ([c], cs)
      else (case until_delim d cs of
              None \<Rightarrow> None
            | Some (l, r) \<Rightarrow> Some (c # l, r)))"

text \<open>
  \<open>bufio.Reader.ReadString(delim)\<close>: reads until the first occurrence of \<open>delim\<close> and
  returns the string up to and including it. When the input ends before a delimiter is
  found it returns the data read so far together with the error (often \<open>io.EOF\<close>).
\<close>

definition ReadString :: "char \<Rightarrow> Reader \<Rightarrow> string \<times> io_error option \<times> Reader" where
  "ReadString delim r =
     (case until_delim delim (pending r) of
        Some (line, rest) \<Rightarrow> (line, None, r\<lparr>pending := rest\<rparr>)
      | None \<Rightarrow> (pending r, Some (fault r), r\<lparr>pending := []\<rparr>))"

subsection \<open>The scan loop\<close>

text \<open>
  The local variables of \<open>FetchICS\<close>, and in \<open>eventChan\<close> the values the function has
  sent on its channel so far, oldest first.
\<close>

record fetch_state =
  event :: string
  inEvent :: bool
  eventChan :: "string list"

definition send :: "string \<Rightarrow> fetch_state \<Rightarrow> fetch_state" where
  "send v s = s\<lparr>eventChan := eventChan s @ [v]\<rparr>"

definition beginCRLF :: string where "beginCRLF = ''BEGIN:VEVENT'' @ [CR, LF]"
definition beginLF :: string where "beginLF = ''BEGIN:VEVENT'' @ [LF]"
definition endCRLF :: string where "endCRLF = ''END:VEVENT'' @ [CR, LF]"
definition endLF :: string where "endLF = ''END:VEVENT'' @ [LF]"

text \<open>
  One pass through the body of the \<open>for\<close> loop after a line was read without error
  (fetcher.go, lines 45 to 60).
\<close>

definition handleLine :: "string \<Rightarrow> fetch_state \<Rightarrow> fetch_state" where
  "handleLine line s =
     (if line = beginCRLF \<or> line = beginLF then s\<lparr>inEvent := True, event := line\<rparr>
      else if inEvent s then
        (let s1 = s\<lparr>event := event s @ line\<rparr>
         in if line = endCRLF \<or> line = endLF
            then (send (event s1) s1)\<lparr>inEvent := False, event := []\<rparr>
            else s1)
      else s)"

text \<open>How the loop is left: by \<open>break\<close> at \<open>io.EOF\<close>, or by \<open>return\<close> after a read error.\<close>

datatype loop_exit = Broke | Returned

text \<open>The recursion of the loop is justified by the reader's input getting shorter.\<close>

lemma until_delim_shorter: "until_delim d bs = Some (l, r) \<Longrightarrow> length r < length bs"
  by (induction bs arbitrary: l) (auto split: if_splits option.splits)

function scanLoop :: "string \<Rightarrow> Reader \<Rightarrow> fetch_state \<Rightarrow> loop_exit \<times> fetch_state" where
  "scanLoop url reader s =
     (case ReadString LF reader of
        (line, err, reader') \<Rightarrow>
          if err \<noteq> None \<and> err \<noteq> Some EOF
          then (Returned, send (''Error reading response body: '' @ url) s)
          else if err = Some EOF then (Broke, s)
          else scanLoop url reader' (handleLine line s))"
  by pat_completeness auto
termination
  by (relation "measure (\<lambda>(url, reader, s). length (pending reader))")
     (auto simp: ReadString_def split: option.splits dest: until_delim_shorter)

declare scanLoop.simps [simp del]

text \<open>The start state of the loop, and the reader over a response body.\<close>

definition initial :: fetch_state where
  "initial = \<lparr>event = [], inEvent = False, eventChan = []\<rparr>"

definition NewReader :: "string \<Rightarrow> io_error \<Rightarrow> Reader" where
  "NewReader body e = \<lparr>pending = body, fault = e\<rparr>"

text \<open>
  \<open>FetchICS(url, eventChan)\<close>. The network is the parameter \<open>get\<close>; the result is the
  sequence of values sent on \<open>eventChan\<close>, in the order they are sent.
\<close>

definition FetchICS :: "(string \<Rightarrow> http_result) \<Rightarrow> string \<Rightarrow> string list" where
  "FetchICS get url =
     (case get url of
        GetFailed \<Rightarrow> [''Error fetching URL: '' @ url]
      | Response body e \<Rightarrow>
          (case scanLoop url (NewReader body e) initial of
             (Returned, s) \<Rightarrow> eventChan s
           | (Broke, s) \<Rightarrow> eventChan (if event s \<noteq> [] then send (event s) s else s)))"

subsection \<open>What an event unit looks like\<close>

text \<open>
  \<open>linesOf u\<close> splits a string after every line feed; a last piece without line feed is
  kept as it is. A line, as \<open>ReadString\<close> returns it without error, ends with its only
  line feed.
\<close>

fun linesOf :: "string \<Rightarrow> string list" where
  "linesOf [] = []"
| "linesOf (c # cs) =
     (if c = LF then [c] # linesOf cs
      else (case linesOf cs of [] \<Rightarrow> [[c]] | l # ls \<Rightarrow> (c # l) # ls))"

definition is_line :: "string \<Rightarrow> bool" where
  "is_line l \<longleftrightarrow> l \<noteq> [] \<and> last l = LF \<and> LF \<notin> set (butlast l)"

definition startsWithBeginLine :: "string \<Rightarrow> bool" where
  "startsWithBeginLine u \<longleftrightarrow>
     (case linesOf u of [] \<Rightarrow> False | l # ls \<Rightarrow> l = beginCRLF \<or> l = beginLF)"

definition endsWithEndLine :: "string \<Rightarrow> bool" where
  "endsWithEndLine u \<longleftrightarrow>
     (case rev (linesOf u) of [] \<Rightarrow> False | l # ls \<Rightarrow> l = endCRLF \<or> l = endLF)"

subsection \<open>Auxiliary notions for the proofs\<close>

text \<open>
  \<open>feed s ls\<close> runs the loop body over the lines \<open>ls\<close>. \<open>acc_ok\<close> describes the
  accumulation buffer between two passes, \<open>chan_ok\<close> the units sent so far.
\<close>

definition feed :: "fetch_state \<Rightarrow> string list \<Rightarrow> fetch_state" where
  "feed s ls = foldl (\<lambda>s l. handleLine l s) s ls"

definition acc_ok :: "fetch_state \<Rightarrow> bool" where
  "acc_ok s \<longleftrightarrow>
     (if inEvent s
      then (\<exists>ls. event s = concat ls \<and> ls \<noteq> [] \<and> (hd ls = beginCRLF \<or> hd ls = beginLF) \<and>
              (\<forall>l\<in>set ls. is_line l) \<and> (\<forall>l\<in>set (tl ls). l \<noteq> endCRLF \<and> l \<noteq> endLF))
      else event s = [])"

definition chan_ok :: "fetch_state \<Rightarrow> bool" where
  "chan_ok s \<longleftrightarrow> (\<forall>u\<in>set (eventChan s). startsWithBeginLine u \<and> endsWithEndLine u)"

text \<open>
  For comparing the two terminator styles: \<open>joinLines t ls\<close> is the body whose lines
  are \<open>ls\<close>, each followed by the terminator \<open>t\<close>; \<open>toCRLF\<close> rewrites every line feed
  of a string as carriage return, line feed.
\<close>

definition joinLines :: "string \<Rightarrow> string list \<Rightarrow> string" where
  "joinLines t ls = concat (map (\<lambda>l. l @ t) ls)"

definition toCRLF :: "string \<Rightarrow> string" where
  "toCRLF u = concat (map (\<lambda>c. if c = LF then [CR, LF] else [c]) u)"

definition same_state :: "fetch_state \<Rightarrow> fetch_state \<Rightarrow> bool" where
  "same_state s1 s2 \<longleftrightarrow>
     event s1 = toCRLF (event s2) \<and> inEvent s1 = inEvent s2 \<and>
     eventChan s1 = map toCRLF (eventChan s2)"

text \<open>
  A line, without its terminator, that is neither marker in either reading: it contains no
  line feed, is not a marker, and is not a marker followed by a carriage return.
\<close>

definition plain :: "string \<Rightarrow> bool" where
  "plain l \<longleftrightarrow>
     LF \<notin> set l \<and> l \<noteq> ''BEGIN:VEVENT'' \<and> l \<noteq> ''END:VEVENT'' \<and>
     l \<noteq> ''BEGIN:VEVENT'' @ [CR] \<and> l \<noteq> ''END:VEVENT'' @ [CR]"

section \<open>The batch path: \<open>combineCalendars\<close> (main.go)\<close>

subsection \<open>Calendars\<close>

text \<open>
  Modelled from the spec: the calendar library \<open>ics\<close> that \<open>combineCalendars\<close> calls
  is not among the sources. The spec describes a calendar as a parsed collection of
  events, each with a start-time field and a summary field. Here an event is its list of
  properties, a property is a name with its raw value, and a calendar holds its components
  in order, events among them.
\<close>

record IANAProperty =
  IANAToken :: string
  Value :: string

record VEvent =
  Properties :: "IANAProperty list"

datatype Component = Event VEvent | OtherComponent string

record Calendar =
  Components :: "Component list"
  CalendarProperties :: "IANAProperty list"

text \<open>
  \<open>combineCalendars\<close> takes and returns pointers to calendars. The heap holds the
  calendars allocated so far; a pointer is an index into it. A pointer outside the heap
  stands for \<open>nil\<close>, and going through it is the runtime panic of Go. The other panic
  of the runtime that the code can meet is an index outside a slice.
\<close>

datatype error = NilDereference | IndexOutOfRange

type_synonym pointer = nat
type_synonym heap = "Calendar list"

definition deref :: "heap \<Rightarrow> pointer \<Rightarrow> error + Calendar" where
  "deref h p = (if p < length h then Inr (h ! p) else Inl NilDereference)"

text \<open>
  Modelled from the spec: \<open>ics.NewCalendar()\<close> allocates a calendar without components.
\<close>

definition NewCalendar :: "heap \<Rightarrow> pointer \<times> heap" where
  "NewCalendar h =
     (length h,
      h @ [\<lparr>Components = [],
             CalendarProperties = [\<lparr>IANAToken = ''VERSION'', Value = ''2.0''\<rparr>]\<rparr>])"

text \<open>
  Modelled from the spec: \<open>cal.Events()\<close> collects the events of a calendar, in the
  order of its components, into a slice of its own. So the slice that \<open>combineCalendars\<close>
  appends to and sorts in place is not storage of either input calendar, and is a value
  here.
\<close>

fun eventsOf :: "Component list \<Rightarrow> VEvent list" where
  "eventsOf [] = []"
| "eventsOf (Event e # cs) = e # eventsOf cs"
| "eventsOf (OtherComponent n # cs) = eventsOf cs"

definition Events :: "heap \<Rightarrow> pointer \<Rightarrow> error + VEvent list" where
  "Events h p = (case deref h p of Inl e \<Rightarrow> Inl e | Inr c \<Rightarrow> Inr (eventsOf (Components c)))"

text \<open>
  Modelled from the spec: \<open>cal.AddVEvent(event)\<close> appends the event to the components
  of the calendar.
\<close>

definition AddVEvent :: "heap \<Rightarrow> pointer \<Rightarrow> VEvent \<Rightarrow> error + heap" where
  "AddVEvent h p e =
     (case deref h p of
        Inl x \<Rightarrow> Inl x
      | Inr c \<Rightarrow> Inr (h[p := c\<lparr>Components := Components c @ [Event e]\<rparr>]))"

text \<open>
  Modelled from the spec: \<open>event.GetProperty(name)\<close> is the first property of that
  name, or \<open>nil\<close>.
\<close>

definition GetProperty :: "VEvent \<Rightarrow> string \<Rightarrow> IANAProperty option" where
  "GetProperty e name = find (\<lambda>p. IANAToken p = name) (Properties e)"

definition ComponentPropertyDtStart :: string where
  "ComponentPropertyDtStart = ''DTSTART''"

subsection \<open>The comparator and the sort\<close>

text \<open>
  The function literal handed to \<open>sort.Slice\<close> (main.go, lines 103 to 107). It reads
  \<open>.Value\<close> of what \<open>GetProperty\<close> returns without a test for \<open>nil\<close>. The comparison
  \<open><\<close> of Go strings is the lexicographic order of their bytes. The literal takes two
  indices into the slice being sorted; here it takes the two events found there.
\<close>

definition lessFn :: "VEvent \<Rightarrow> VEvent \<Rightarrow> error + bool" where
  "lessFn eventI eventJ =
     (case GetProperty eventI ComponentPropertyDtStart of
        None \<Rightarrow> Inl NilDereference
      | Some propI \<Rightarrow>
          (case GetProperty eventJ ComponentPropertyDtStart of
             None \<Rightarrow> Inl NilDereference
           | Some propJ \<Rightarrow> Inr (Value propI < Value propJ)))"

text \<open>
  \<open>sort.Slice\<close> belongs to the standard library of Go and is not among the sources; it
  is a parameter of \<open>combineCalendars\<close> here, and its algorithm follows in the next
  section. Its documentation promises that the slice is sorted as the comparator says, and
  states that the sort is not guaranteed to be stable. \<open>sortSlice_contract\<close> is that
  promise for comparators that compare by a key: the result is a rearrangement of the input
  in which the keys do not decrease. A panic of the comparator ends the sort.
\<close>

type_synonym 'a sorter = "('a \<Rightarrow> 'a \<Rightarrow> error + bool) \<Rightarrow> 'a list \<Rightarrow> error + 'a list"

definition sortSlice_contract :: "'a sorter \<Rightarrow> bool" where
  "sortSlice_contract sortSlice \<longleftrightarrow>
     (\<forall>lt xs (key :: 'a \<Rightarrow> string).
        (\<forall>a\<in>set xs. \<forall>b\<in>set xs. lt a b = Inr (key a < key b)) \<longrightarrow>
        (\<exists>ys. sortSlice lt xs = Inr ys \<and> mset ys = mset xs \<and> sorted (map key ys)))"

text \<open>
  A sort that keeps the promise: \<open>insertionSort\<close> puts each element before the first
  one that is not less than it, which keeps equal elements in their order.
\<close>

fun insertInto :: "('a \<Rightarrow> 'a \<Rightarrow> error + bool) \<Rightarrow> 'a \<Rightarrow> 'a list \<Rightarrow> error + 'a list" where
  "insertInto lt x [] = Inr [x]"
| "insertInto lt x (y # ys) =
     (case lt y x of
        Inl e \<Rightarrow> Inl e
      | Inr True \<Rightarrow> (case insertInto lt x ys of Inl e \<Rightarrow> Inl e | Inr zs \<Rightarrow> Inr (y # zs))
      | Inr False \<Rightarrow> Inr (x # y # ys))"

fun insertionSort :: "'a sorter" where
  "insertionSort lt [] = Inr []"
| "insertionSort lt (x # xs) =
     (case insertionSort lt xs of Inl e \<Rightarrow> Inl e | Inr ys \<Rightarrow> insertInto lt x ys)"

subsection \<open>\<open>combineCalendars\<close>\<close>

text \<open>
  The arguments of a call are \<open>nil\<close> or not as of the call: a pointer outside the heap
  of the call stays \<open>nil\<close> when the callee allocates. \<open>EventsOfArgument h0 h p\<close> is
  \<open>p.Events()\<close> in the heap \<open>h\<close> for an argument \<open>p\<close> of a call made in the heap
  \<open>h0\<close>.
\<close>

definition EventsOfArgument :: "heap \<Rightarrow> heap \<Rightarrow> pointer \<Rightarrow> error + VEvent list" where
  "EventsOfArgument h0 h p = (if p < length h0 then Events h p else Inl NilDereference)"

text \<open>The loop \<open>for _, event := range events { combinedCal.AddVEvent(event) }\<close>.\<close>

fun addEvents :: "heap \<Rightarrow> pointer \<Rightarrow> VEvent list \<Rightarrow> error + heap" where
  "addEvents h combinedCal [] = Inr h"
| "addEvents h combinedCal (ev # events) =
     (case AddVEvent h combinedCal ev of
        Inl e \<Rightarrow> Inl e
      | Inr h' \<Rightarrow> addEvents h' combinedCal events)"

definition combineCalendars ::
    "VEvent sorter \<Rightarrow> heap \<Rightarrow> pointer \<Rightarrow> pointer \<Rightarrow> error + (pointer \<times> heap)" where
  "combineCalendars sortSlice h cal1 cal2 =
     (case NewCalendar h of
        (combinedCal, h1) \<Rightarrow>
          (case EventsOfArgument h h1 cal1 of
             Inl e \<Rightarrow> Inl e
           | Inr events1 \<Rightarrow>
               (case EventsOfArgument h h1 cal2 of
                  Inl e \<Rightarrow> Inl e
                | Inr events2 \<Rightarrow>
                    (case sortSlice lessFn (events1 @ events2) of
                       Inl e \<Rightarrow> Inl e
                     | Inr events \<Rightarrow>
                         (case addEvents h1 combinedCal events of
                            Inl e \<Rightarrow> Inl e
                          | Inr h2 \<Rightarrow> Inr (combinedCal, h2))))))"

text \<open>
  The raw start time of an event that has one, and the events of a calendar in the heap,
  for stating the results.
\<close>

definition hasDtStart :: "VEvent \<Rightarrow> bool" where
  "hasDtStart e \<longleftrightarrow> GetProperty e ComponentPropertyDtStart \<noteq> None"

definition startTime :: "VEvent \<Rightarrow> string" where
  "startTime e =
     (case GetProperty e ComponentPropertyDtStart of None \<Rightarrow> [] | Some p \<Rightarrow> Value p)"

definition eventsAt :: "heap \<Rightarrow> pointer \<Rightarrow> VEvent list" where
  "eventsAt h p = eventsOf (Components (h ! p))"

text \<open>
  A sort is stable when its result is the input sorted with equal keys left in their
  order, which is what \<open>sort_key\<close> computes.
\<close>

definition stableOrder :: "VEvent list \<Rightarrow> VEvent list \<Rightarrow> bool" where
  "stableOrder input output \<longleftrightarrow> output = sort_key startTime input"

text \<open>The two calendars of main\_test.go, as the parser delivers them.\<close>

definition mkEvent :: "string \<Rightarrow> string \<Rightarrow> VEvent" where
  "mkEvent summary start =
     \<lparr>Properties = [\<lparr>IANAToken = ''SUMMARY'', Value = summary\<rparr>,
                    \<lparr>IANAToken = ''DTSTART'', Value = start\<rparr>]\<rparr>"

definition mockColombianCalendar :: Calendar where
  "mockColombianCalendar =
     \<lparr>Components = [Event (mkEvent ''Colombian New Year'' ''20230101''),
                    Event (mkEvent ''Colombian Independence Day'' ''20230720'')],
      CalendarProperties = [\<lparr>IANAToken = ''VERSION'', Value = ''2.0''\<rparr>]\<rparr>"

definition mockCanadianCalendar :: Calendar where
  "mockCanadianCalendar =
     \<lparr>Components = [Event (mkEvent ''Canadian New Year'' ''20230101''),
                    Event (mkEvent ''Canada Day'' ''20230701'')],
      CalendarProperties = [\<lparr>IANAToken = ''VERSION'', Value = ''2.0''\<rparr>]\<rparr>"

text \<open>A calendar with two events that carry a summary and no start time.\<close>

definition undatedCalendar :: Calendar where
  "undatedCalendar =
     \<lparr>Components = [Event \<lparr>Properties = [\<lparr>IANAToken = ''SUMMARY'', Value = ''Some day''\<rparr>]\<rparr>,
                    Event \<lparr>Properties = [\<lparr>IANAToken = ''SUMMARY'', Value = ''Another day''\<rparr>]\<rparr>],
      CalendarProperties = [\<lparr>IANAToken = ''VERSION'', Value = ''2.0''\<rparr>]\<rparr>"

text \<open>
  Two calendars with seven and six events. All start on the first of January 2023 but
  the last event of the first calendar, which starts the day before.
\<close>

definition calendarOfSeven :: Calendar where
  "calendarOfSeven =
     \<lparr>Components = [Event (mkEvent ''A'' ''20230101''), Event (mkEvent ''B'' ''20230101''),
                    Event (mkEvent ''C'' ''20230101''), Event (mkEvent ''D'' ''20230101''),
                    Event (mkEvent ''E'' ''20230101''), Event (mkEvent ''F'' ''20230101''),
                    Event (mkEvent ''G'' ''20221231'')],
      CalendarProperties = [\<lparr>IANAToken = ''VERSION'', Value = ''2.0''\<rparr>]\<rparr>"

definition calendarOfSix :: Calendar where
  "calendarOfSix =
     \<lparr>Components = [Event (mkEvent ''H'' ''20230101''), Event (mkEvent ''I'' ''20230101''),
                    Event (mkEvent ''J'' ''20230101''), Event (mkEvent ''K'' ''20230101''),
                    Event (mkEvent ''L'' ''20230101''), Event (mkEvent ''M'' ''20230101'')],
      CalendarProperties = [\<lparr>IANAToken = ''VERSION'', Value = ''2.0''\<rparr>]\<rparr>"

section \<open>\<open>sort.Slice\<close> of the Go standard library\<close>

text \<open>
  \<open>sort.Slice\<close> is not among the sources. What follows is its algorithm as the standard
  library has it since Go 1.19 (package \<open>sort\<close>, pattern-defeating quicksort), function
  by function. It serves to run \<open>combineCalendars\<close> on inputs; the general theorems rest
  on \<open>sortSlice_contract\<close> alone. The slice is a list that every function hands on,
  indices are integers as in Go, \<open>data.Less(i, j)\<close> applies the comparator to the elements
  at the two indices, and an index outside the slice or a panic of the comparator ends the
  sort. Go's \<open>/\<close> on integers rounds towards zero, which is \<open>sdiv\<close>.
\<close>

definition andThen :: "error + 'a \<Rightarrow> ('a \<Rightarrow> error + 'b) \<Rightarrow> error + 'b" where
  "andThen m f = (case m of Inl e \<Rightarrow> Inl e | Inr x \<Rightarrow> f x)"

lemma andThen_cong [fundef_cong]:
  "m = m' \<Longrightarrow> (\<And>x. m' = Inr x \<Longrightarrow> f x = f' x) \<Longrightarrow> andThen m f = andThen m' f'"
  by (cases m') (simp_all add: andThen_def)

definition inRange :: "'a list \<Rightarrow> int \<Rightarrow> bool" where
  "inRange data i \<longleftrightarrow> 0 \<le> i \<and> i < int (length data)"

definition Less :: "('a \<Rightarrow> 'a \<Rightarrow> error + bool) \<Rightarrow> 'a list \<Rightarrow> int \<Rightarrow> int \<Rightarrow> error + bool" where
  "Less lt data i j =
     (if inRange data i \<and> inRange data j then lt (data ! nat i) (data ! nat j)
      else Inl IndexOutOfRange)"

definition Swap :: "'a list \<Rightarrow> int \<Rightarrow> int \<Rightarrow> error + 'a list" where
  "Swap data i j =
     (if inRange data i \<and> inRange data j
      then Inr (data[nat i := data ! nat j, nat j := data ! nat i])
      else Inl IndexOutOfRange)"

subsection \<open>Insertion sort\<close>

text \<open>
  \<^verbatim>\<open>for i := a + 1; i < b; i++ {
    for j := i; j > a && data.Less(j, j-1); j-- { data.Swap(j, j-1) } }\<close>
\<close>

function insertDown :: "('a \<Rightarrow> 'a \<Rightarrow> error + bool) \<Rightarrow> 'a list \<Rightarrow> int \<Rightarrow> int \<Rightarrow> error + 'a list" where
  "insertDown lt data a j =
     (if j > a
      then andThen (Less lt data j (j - 1))
             (\<lambda>c. if c then andThen (Swap data j (j - 1)) (\<lambda>d. insertDown lt d a (j - 1))
                  else Inr data)
      else Inr data)"
  by pat_completeness auto
termination
  by (relation "measure (\<lambda>(lt, data, a, j). nat (j - a))") auto

function insertionLoop ::
    "('a \<Rightarrow> 'a \<Rightarrow> error + bool) \<Rightarrow> 'a list \<Rightarrow> int \<Rightarrow> int \<Rightarrow> int \<Rightarrow> error + 'a list" where
  "insertionLoop lt data a b i =
     (if i < b then andThen (insertDown lt data a i) (\<lambda>d. insertionLoop lt d a b (i + 1))
      else Inr data)"
  by pat_completeness auto
termination
  by (relation "measure (\<lambda>(lt, data, a, b, i). nat (b - i))") auto

definition insertionSort_func ::
    "('a \<Rightarrow> 'a \<Rightarrow> error + bool) \<Rightarrow> 'a list \<Rightarrow> int \<Rightarrow> int \<Rightarrow> error + 'a list" where
  "insertionSort_func lt data a b = insertionLoop lt data a b (a + 1)"

subsection \<open>Heap sort\<close>

text \<open>
  \<open>siftDown_func(data, lo, hi, first)\<close>. Its variable \<open>root\<close> starts as \<open>lo\<close>, which
  \<open>heapSort_func\<close> never passes below zero, and goes on as a child; it is a natural number
  here. \<open>largerChild\<close> is the choice between the two children.
\<close>

definition largerChild ::
    "('a \<Rightarrow> 'a \<Rightarrow> error + bool) \<Rightarrow> 'a list \<Rightarrow> int \<Rightarrow> int \<Rightarrow> int \<Rightarrow> error + int" where
  "largerChild lt data hi first child =
     (if child + 1 < hi
      then andThen (Less lt data (first + child) (first + child + 1))
             (\<lambda>c. Inr (if c then child + 1 else child))
      else Inr child)"

lemma largerChild_bound:
  "largerChild lt data hi first child = Inr c \<Longrightarrow> child < hi \<Longrightarrow> child \<le> c \<and> c < hi"
  by (auto simp: largerChild_def andThen_def split: if_splits sum.splits)

function siftDown_func ::
    "('a \<Rightarrow> 'a \<Rightarrow> error + bool) \<Rightarrow> 'a list \<Rightarrow> nat \<Rightarrow> int \<Rightarrow> int \<Rightarrow> error + 'a list" where
  "siftDown_func lt data root hi first =
     (if 2 * int root + 1 \<ge> hi then Inr data
      else andThen (largerChild lt data hi first (2 * int root + 1))
             (\<lambda>child. andThen (Less lt data (first + int root) (first + child))
                (\<lambda>c. if \<not> c then Inr data
                     else andThen (Swap data (first + int root) (first + child))
                            (\<lambda>d. siftDown_func lt d (nat child) hi first))))"
  by pat_completeness auto
termination
  by (relation "measure (\<lambda>(lt, data, root, hi, first). nat (hi - int root))")
     (auto dest!: largerChild_bound)

text \<open>
  \<^verbatim>\<open>for i := (hi - 1) / 2; i >= 0; i-- { siftDown_func(data, i, hi, first) }\<close> and
  \<^verbatim>\<open>for i := hi - 1; i >= 0; i-- { data.Swap(first, first+i); siftDown_func(data, lo, i, first) }\<close>.
\<close>

function heapBuild ::
    "('a \<Rightarrow> 'a \<Rightarrow> error + bool) \<Rightarrow> 'a list \<Rightarrow> int \<Rightarrow> int \<Rightarrow> int \<Rightarrow> error + 'a list" where
  "heapBuild lt data hi first i =
     (if i \<ge> 0
      then andThen (siftDown_func lt data (nat i) hi first) (\<lambda>d. heapBuild lt d hi first (i - 1))
      else Inr data)"
  by pat_completeness auto
termination
  by (relation "measure (\<lambda>(lt, data, hi, first, i). nat (i + 1))") auto

function heapPop ::
    "('a \<Rightarrow> 'a \<Rightarrow> error + bool) \<Rightarrow> 'a list \<Rightarrow> int \<Rightarrow> int \<Rightarrow> error + 'a list" where
  "heapPop lt data first i =
     (if i \<ge> 0
      then andThen (Swap data first (first + i))
             (\<lambda>d. andThen (siftDown_func lt d 0 i first) (\<lambda>d. heapPop lt d first (i - 1)))
      else Inr data)"
  by pat_completeness auto
termination
  by (relation "measure (\<lambda>(lt, data, first, i). nat (i + 1))") auto

definition heapSort_func ::
    "('a \<Rightarrow> 'a \<Rightarrow> error + bool) \<Rightarrow> 'a list \<Rightarrow> int \<Rightarrow> int \<Rightarrow> error + 'a list" where
  "heapSort_func lt data a b =
     (let first = a; hi = b - a
      in andThen (heapBuild lt data hi first ((hi - 1) sdiv 2))
           (\<lambda>d. heapPop lt d first (hi - 1)))"

subsection \<open>Choosing the pivot\<close>

datatype sortedHint = unknownHint | increasingHint | decreasingHint

definition order2_func ::
    "('a \<Rightarrow> 'a \<Rightarrow> error + bool) \<Rightarrow> 'a list \<Rightarrow> int \<Rightarrow> int \<Rightarrow> int \<Rightarrow> error + (int \<times> int \<times> int)" where
  "order2_func lt data a b swaps =
     andThen (Less lt data b a) (\<lambda>c. Inr (if c then (b, a, swaps + 1) else (a, b, swaps)))"

definition median_func ::
    "('a \<Rightarrow> 'a \<Rightarrow> error + bool) \<Rightarrow> 'a list \<Rightarrow> int \<Rightarrow> int \<Rightarrow> int \<Rightarrow> int \<Rightarrow> error + (int \<times> int)" where
  "median_func lt data a b c swaps =
     andThen (order2_func lt data a b swaps)
       (\<lambda>(a, b, swaps). andThen (order2_func lt data b c swaps)
          (\<lambda>(b, c, swaps). andThen (order2_func lt data a b swaps)
             (\<lambda>(a, b, swaps). Inr (b, swaps))))"

definition medianAdjacent_func ::
    "('a \<Rightarrow> 'a \<Rightarrow> error + bool) \<Rightarrow> 'a list \<Rightarrow> int \<Rightarrow> int \<Rightarrow> error + (int \<times> int)" where
  "medianAdjacent_func lt data a swaps = median_func lt data (a - 1) a (a + 1) swaps"

text \<open>\<open>shortestNinther\<close> is 50 and \<open>maxSwaps\<close> is \<open>4 * 3\<close>.\<close>

definition choosePivot_func ::
    "('a \<Rightarrow> 'a \<Rightarrow> error + bool) \<Rightarrow> 'a list \<Rightarrow> int \<Rightarrow> int \<Rightarrow> error + (int \<times> sortedHint)" where
  "choosePivot_func lt data a b =
     (let l = b - a;
          i = a + l sdiv 4 * 1;
          j = a + l sdiv 4 * 2;
          k = a + l sdiv 4 * 3
      in andThen
           (if l \<ge> 8
            then andThen
                   (if l \<ge> 50
                    then andThen (medianAdjacent_func lt data i 0)
                           (\<lambda>(i, swaps). andThen (medianAdjacent_func lt data j swaps)
                              (\<lambda>(j, swaps). andThen (medianAdjacent_func lt data k swaps)
                                 (\<lambda>(k, swaps). Inr (i, j, k, swaps))))
                    else Inr (i, j, k, 0))
                   (\<lambda>(i, j, k, swaps). median_func lt data i j k swaps)
            else Inr (j, 0))
           (\<lambda>(j, swaps).
              Inr (j, if swaps = 0 then increasingHint
                      else if swaps = 4 * 3 then decreasingHint
                      else unknownHint)))"

text \<open>\<^verbatim>\<open>i := a; j := b - 1; for i < j { data.Swap(i, j); i++; j-- }\<close>\<close>

function reverseLoop :: "'a list \<Rightarrow> int \<Rightarrow> int \<Rightarrow> error + 'a list" where
  "reverseLoop data i j =
     (if i < j then andThen (Swap data i j) (\<lambda>d. reverseLoop d (i + 1) (j - 1)) else Inr data)"
  by pat_completeness auto
termination
  by (relation "measure (\<lambda>(data, i, j). nat (j - i))") auto

definition reverseRange_func :: "'a list \<Rightarrow> int \<Rightarrow> int \<Rightarrow> error + 'a list" where
  "reverseRange_func data a b = reverseLoop data a (b - 1)"

subsection \<open>Partial insertion sort\<close>

text \<open>\<^verbatim>\<open>for i < b && !data.Less(i, i-1) { i++ }\<close>\<close>

function skipSorted :: "('a \<Rightarrow> 'a \<Rightarrow> error + bool) \<Rightarrow> 'a list \<Rightarrow> int \<Rightarrow> int \<Rightarrow> error + int" where
  "skipSorted lt data b i =
     (if i < b
      then andThen (Less lt data i (i - 1))
             (\<lambda>c. if \<not> c then skipSorted lt data b (i + 1) else Inr i)
      else Inr i)"
  by pat_completeness auto
termination
  by (relation "measure (\<lambda>(lt, data, b, i). nat (b - i))") auto

text \<open>
  \<^verbatim>\<open>for j := i - 1; j >= 1; j-- { if !data.Less(j, j-1) { break }; data.Swap(j, j-1) }\<close>
\<close>

function shiftLeft :: "('a \<Rightarrow> 'a \<Rightarrow> error + bool) \<Rightarrow> 'a list \<Rightarrow> int \<Rightarrow> error + 'a list" where
  "shiftLeft lt data j =
     (if j \<ge> 1
      then andThen (Less lt data j (j - 1))
             (\<lambda>c. if \<not> c then Inr data
                  else andThen (Swap data j (j - 1)) (\<lambda>d. shiftLeft lt d (j - 1)))
      else Inr data)"
  by pat_completeness auto
termination
  by (relation "measure (\<lambda>(lt, data, j). nat j)") auto

text \<open>
  \<^verbatim>\<open>for j := i + 1; j < b; j++ { if !data.Less(j, j-1) { break }; data.Swap(j, j-1) }\<close>
\<close>

function shiftRight :: "('a \<Rightarrow> 'a \<Rightarrow> error + bool) \<Rightarrow> 'a list \<Rightarrow> int \<Rightarrow> int \<Rightarrow> error + 'a list" where
  "shiftRight lt data b j =
     (if j < b
      then andThen (Less lt data j (j - 1))
             (\<lambda>c. if \<not> c then Inr data
                  else andThen (Swap data j (j - 1)) (\<lambda>d. shiftRight lt d b (j + 1)))
      else Inr data)"
  by pat_completeness auto
termination
  by (relation "measure (\<lambda>(lt, data, b, j). nat (b - j))") auto

text \<open>
  The loop \<^verbatim>\<open>for j := 0; j < maxSteps; j++\<close> of \<open>partialInsertionSort_func\<close>, over
  the number of passes that are left; \<open>maxSteps\<close> is 5 and \<open>shortestShifting\<close> is 50.
\<close>

fun partialSteps ::
    "('a \<Rightarrow> 'a \<Rightarrow> error + bool) \<Rightarrow> 'a list \<Rightarrow> int \<Rightarrow> int \<Rightarrow> int \<Rightarrow> nat \<Rightarrow> error + ('a list \<times> bool)" where
  "partialSteps lt data a b i 0 = Inr (data, False)"
| "partialSteps lt data a b i (Suc n) =
     andThen (skipSorted lt data b i)
       (\<lambda>i. if i = b then Inr (data, True)
            else if b - a < 50 then Inr (data, False)
            else andThen (Swap data i (i - 1))
                   (\<lambda>d. andThen (if i - a \<ge> 2 then shiftLeft lt d (i - 1) else Inr d)
                      (\<lambda>d. andThen (if b - i \<ge> 2 then shiftRight lt d b (i + 1) else Inr d)
                         (\<lambda>d. partialSteps lt d a b i n))))"

definition partialInsertionSort_func ::
    "('a \<Rightarrow> 'a \<Rightarrow> error + bool) \<Rightarrow> 'a list \<Rightarrow> int \<Rightarrow> int \<Rightarrow> error + ('a list \<times> bool)" where
  "partialInsertionSort_func lt data a b = partialSteps lt data a b (a + 1) 5"

subsection \<open>Breaking patterns\<close>

text \<open>
  \<open>bits.Len\<close> and \<open>nextPowerOfTwo\<close>. The pseudo-random numbers of
  \<open>breakPatterns_func\<close> are a parameter: \<open>random n k\<close> is what the \<open>k\<close>-th call of
  \<open>random.Next()\<close> returns for the generator seeded with \<open>n\<close>. The loop
  \<^verbatim>\<open>for i := 0; i < 3; i++\<close> runs over the number of passes that are left.
\<close>

fun bitsLen :: "nat \<Rightarrow> nat" where
  "bitsLen n = (if n = 0 then 0 else Suc (bitsLen (n div 2)))"

declare bitsLen.simps [simp del]

definition nextPowerOfTwo :: "int \<Rightarrow> nat" where
  "nextPowerOfTwo len = 2 ^ bitsLen (nat len)"

fun breakLoop :: "(int \<Rightarrow> nat \<Rightarrow> nat) \<Rightarrow> 'a list \<Rightarrow> int \<Rightarrow> int \<Rightarrow> int \<Rightarrow> nat \<Rightarrow> error + 'a list" where
  "breakLoop random data a len idx 0 = Inr data"
| "breakLoop random data a len idx (Suc n) =
     (let i = 3 - Suc n;
          other = int (random len (Suc i) mod nextPowerOfTwo len);
          other = (if other \<ge> len then other - len else other)
      in andThen (Swap data (idx - 1 + int i) (a + other))
           (\<lambda>d. breakLoop random d a len idx n))"

definition breakPatterns_func :: "(int \<Rightarrow> nat \<Rightarrow> nat) \<Rightarrow> 'a list \<Rightarrow> int \<Rightarrow> int \<Rightarrow> error + 'a list" where
  "breakPatterns_func random data a b =
     (let len = b - a
      in if len \<ge> 8 then breakLoop random data a len (a + (len sdiv 4) * 2 - 1) 3
         else Inr data)"

subsection \<open>Partitioning\<close>

text \<open>
  The two inner loops of \<open>partition_func\<close>,
  \<^verbatim>\<open>for i <= j && data.Less(i, a) { i++ }\<close> and
  \<^verbatim>\<open>for i <= j && !data.Less(j, a) { j-- }\<close>, and the loop around them.
\<close>

function scanUp :: "('a \<Rightarrow> 'a \<Rightarrow> error + bool) \<Rightarrow> 'a list \<Rightarrow> int \<Rightarrow> int \<Rightarrow> int \<Rightarrow> error + int" where
  "scanUp lt data a i j =
     (if i \<le> j
      then andThen (Less lt data i a) (\<lambda>c. if c then scanUp lt data a (i + 1) j else Inr i)
      else Inr i)"
  by pat_completeness auto
termination
  by (relation "measure (\<lambda>(lt, data, a, i, j). nat (j + 1 - i))") auto

function scanDown :: "('a \<Rightarrow> 'a \<Rightarrow> error + bool) \<Rightarrow> 'a list \<Rightarrow> int \<Rightarrow> int \<Rightarrow> int \<Rightarrow> error + int" where
  "scanDown lt data a i j =
     (if i \<le> j
      then andThen (Less lt data j a) (\<lambda>c. if \<not> c then scanDown lt data a i (j - 1) else Inr j)
      else Inr j)"
  by pat_completeness auto
termination
  by (relation "measure (\<lambda>(lt, data, a, i, j). nat (j + 1 - i))") auto

lemma scanUp_ge: "scanUp lt data a i j = Inr i' \<Longrightarrow> i \<le> i'"
proof (induction lt data a i j rule: scanUp.induct)
  case (1 lt data a i j)
  show ?case
  proof (cases "i \<le> j")
    case False
    with "1.prems" show ?thesis by simp
  next
    case True
    show ?thesis
    proof (cases "Less lt data i a")
      case (Inl e)
      with True "1.prems" show ?thesis by (simp add: andThen_def)
    next
      case (Inr c)
      show ?thesis
      proof (cases c)
        case True
        with \<open>i \<le> j\<close> Inr "1.prems" have "scanUp lt data a (i + 1) j = Inr i'"
          by (simp add: andThen_def)
        with "1.IH" [OF \<open>i \<le> j\<close> Inr True] show ?thesis by simp
      next
        case False
        with \<open>i \<le> j\<close> Inr "1.prems" show ?thesis by (simp add: andThen_def)
      qed
    qed
  qed
qed

lemma scanDown_le: "scanDown lt data a i j = Inr j' \<Longrightarrow> j' \<le> j \<and> (j' = j \<or> i \<le> j' + 1)"
proof (induction lt data a i j rule: scanDown.induct)
  case (1 lt data a i j)
  show ?case
  proof (cases "i \<le> j")
    case False
    with "1.prems" show ?thesis by simp
  next
    case True
    show ?thesis
    proof (cases "Less lt data j a")
      case (Inl e)
      with True "1.prems" show ?thesis by (simp add: andThen_def)
    next
      case (Inr c)
      show ?thesis
      proof (cases c)
        case False
        with \<open>i \<le> j\<close> Inr "1.prems" have r: "scanDown lt data a i (j - 1) = Inr j'"
          by (simp add: andThen_def)
        have "\<not> c" using False .
        from "1.IH" [OF \<open>i \<le> j\<close> Inr this r] \<open>i \<le> j\<close> show ?thesis by auto
      next
        case True
        with \<open>i \<le> j\<close> Inr "1.prems" show ?thesis by (simp add: andThen_def)
      qed
    qed
  qed
qed

declare scanUp.simps [simp del] scanDown.simps [simp del]

text \<open>
  \<^verbatim>\<open>for { (the two loops); if i > j { break }; data.Swap(i, j); i++; j-- }\<close>
\<close>

function partitionLoop ::
    "('a \<Rightarrow> 'a \<Rightarrow> error + bool) \<Rightarrow> 'a list \<Rightarrow> int \<Rightarrow> int \<Rightarrow> int \<Rightarrow> error + ('a list \<times> int \<times> int)" where
  "partitionLoop lt data a i j =
     andThen (scanUp lt data a i j)
       (\<lambda>i. andThen (scanDown lt data a i j)
          (\<lambda>j. if i > j then Inr (data, i, j)
               else andThen (Swap data i j) (\<lambda>d. partitionLoop lt d a (i + 1) (j - 1))))"
  by pat_completeness auto
termination
  by (relation "measure (\<lambda>(lt, data, a, i, j). nat (j + 1 - i))")
     (auto dest!: scanUp_ge scanDown_le)


lemma partitionLoop_bounds:
  "partitionLoop lt data a i j = Inr (d, i', j') \<Longrightarrow> a < i \<Longrightarrow> a \<le> j \<Longrightarrow> a \<le> j' \<and> j' \<le> j"
proof (induction lt data a i j rule: partitionLoop.induct)
  case (1 lt data a i j)
  from "1.prems"(1) obtain i1 where i1: "scanUp lt data a i j = Inr i1"
    by (cases "scanUp lt data a i j") (simp_all add: andThen_def)
  with "1.prems"(1) obtain j1 where j1: "scanDown lt data a i1 j = Inr j1"
    by (cases "scanDown lt data a i1 j") (simp_all add: andThen_def)
  from scanUp_ge [OF i1] "1.prems"(2) have a1: "a < i1" by simp
  from scanDown_le [OF j1] a1 "1.prems"(3) have a2: "a \<le> j1" "j1 \<le> j" by auto
  show ?case
  proof (cases "i1 > j1")
    case True
    with i1 j1 "1.prems"(1) have "j' = j1" by (simp add: andThen_def)
    with a2 show ?thesis by simp
  next
    case False
    with i1 j1 "1.prems"(1) obtain d1 where d1: "Swap data i1 j1 = Inr d1"
      by (cases "Swap data i1 j1") (simp_all add: andThen_def)
    with False i1 j1 "1.prems"(1) have r: "partitionLoop lt d1 a (i1 + 1) (j1 - 1) = Inr (d, i', j')"
      by (simp add: andThen_def)
    from False a1 have "a < i1 + 1" "a \<le> j1 - 1" by simp_all
    from "1.IH" [OF i1 j1 False d1 r this] a2 show ?thesis by simp
  qed
qed

declare partitionLoop.simps [simp del]

text \<open>\<open>partition_func\<close> returns the new place of the pivot and \<open>alreadyPartitioned\<close>.\<close>

definition partition_func ::
    "('a \<Rightarrow> 'a \<Rightarrow> error + bool) \<Rightarrow> 'a list \<Rightarrow> int \<Rightarrow> int \<Rightarrow> int \<Rightarrow> error + ('a list \<times> int \<times> bool)" where
  "partition_func lt data a b pivot =
     andThen (Swap data a pivot)
       (\<lambda>data. andThen (scanUp lt data a (a + 1) (b - 1))
          (\<lambda>i. andThen (scanDown lt data a i (b - 1))
             (\<lambda>j. if i > j then andThen (Swap data j a) (\<lambda>d. Inr (d, j, True))
                  else andThen (Swap data i j)
                         (\<lambda>data. andThen (partitionLoop lt data a (i + 1) (j - 1))
                            (\<lambda>(data, i, j). andThen (Swap data j a) (\<lambda>d. Inr (d, j, False)))))))"

lemma partition_func_bounds:
  assumes "partition_func lt data a b pivot = Inr (d, mid, ap)" "a < b"
  shows "a \<le> mid \<and> mid < b"
proof -
  from assms(1) obtain d0 where d0: "Swap data a pivot = Inr d0"
    by (cases "Swap data a pivot") (simp_all add: partition_func_def andThen_def)
  with assms(1) obtain i1 where i1: "scanUp lt d0 a (a + 1) (b - 1) = Inr i1"
    by (cases "scanUp lt d0 a (a + 1) (b - 1)") (simp_all add: partition_func_def andThen_def)
  with d0 assms(1) obtain j1 where j1: "scanDown lt d0 a i1 (b - 1) = Inr j1"
    by (cases "scanDown lt d0 a i1 (b - 1)") (simp_all add: partition_func_def andThen_def)
  from scanUp_ge [OF i1] have a1: "a < i1" by simp
  from scanDown_le [OF j1] a1 assms(2) have a2: "a \<le> j1" "j1 \<le> b - 1" by auto
  show ?thesis
  proof (cases "i1 > j1")
    case True
    with d0 i1 j1 assms(1) have "mid = j1"
      by (cases "Swap d0 j1 a") (simp_all add: partition_func_def andThen_def)
    with a2 show ?thesis by simp
  next
    case False
    with d0 i1 j1 assms(1) obtain d1 where d1: "Swap d0 i1 j1 = Inr d1"
      by (cases "Swap d0 i1 j1") (simp_all add: partition_func_def andThen_def)
    with False d0 i1 j1 assms(1) obtain d2 i2 j2 where
      r: "partitionLoop lt d1 a (i1 + 1) (j1 - 1) = Inr (d2, i2, j2)"
      by (cases "partitionLoop lt d1 a (i1 + 1) (j1 - 1)")
         (auto simp: partition_func_def andThen_def)
    with False d0 d1 i1 j1 assms(1) have m: "mid = j2"
      by (cases "Swap d2 j2 a") (simp_all add: partition_func_def andThen_def)
    from False a1 have "a < i1 + 1" "a \<le> j1 - 1" by simp_all
    from partitionLoop_bounds [OF r this] a2 m show ?thesis by simp
  qed
qed

text \<open>
  The loops of \<open>partitionEqual_func\<close>: \<^verbatim>\<open>for i <= j && !data.Less(a, i) { i++ }\<close>,
  \<^verbatim>\<open>for i <= j && data.Less(a, j) { j-- }\<close> and the loop around them.
\<close>

function scanUpEqual :: "('a \<Rightarrow> 'a \<Rightarrow> error + bool) \<Rightarrow> 'a list \<Rightarrow> int \<Rightarrow> int \<Rightarrow> int \<Rightarrow> error + int" where
  "scanUpEqual lt data a i j =
     (if i \<le> j
      then andThen (Less lt data a i)
             (\<lambda>c. if \<not> c then scanUpEqual lt data a (i + 1) j else Inr i)
      else Inr i)"
  by pat_completeness auto
termination
  by (relation "measure (\<lambda>(lt, data, a, i, j). nat (j + 1 - i))") auto

function scanDownEqual :: "('a \<Rightarrow> 'a \<Rightarrow> error + bool) \<Rightarrow> 'a list \<Rightarrow> int \<Rightarrow> int \<Rightarrow> int \<Rightarrow> error + int" where
  "scanDownEqual lt data a i j =
     (if i \<le> j
      then andThen (Less lt data a j)
             (\<lambda>c. if c then scanDownEqual lt data a i (j - 1) else Inr j)
      else Inr j)"
  by pat_completeness auto
termination
  by (relation "measure (\<lambda>(lt, data, a, i, j). nat (j + 1 - i))") auto

lemma scanUpEqual_ge: "scanUpEqual lt data a i j = Inr i' \<Longrightarrow> i \<le> i'"
proof (induction lt data a i j rule: scanUpEqual.induct)
  case (1 lt data a i j)
  show ?case
  proof (cases "i \<le> j")
    case False
    with "1.prems" show ?thesis by simp
  next
    case True
    show ?thesis
    proof (cases "Less lt data a i")
      case (Inl e)
      with True "1.prems" show ?thesis by (simp add: andThen_def)
    next
      case (Inr c)
      show ?thesis
      proof (cases c)
        case False
        with \<open>i \<le> j\<close> Inr "1.prems" have r: "scanUpEqual lt data a (i + 1) j = Inr i'"
          by (simp add: andThen_def)
        have "\<not> c" using False .
        from "1.IH" [OF \<open>i \<le> j\<close> Inr this r] show ?thesis by simp
      next
        case True
        with \<open>i \<le> j\<close> Inr "1.prems" show ?thesis by (simp add: andThen_def)
      qed
    qed
  qed
qed

lemma scanDownEqual_le: "scanDownEqual lt data a i j = Inr j' \<Longrightarrow> j' \<le> j"
proof (induction lt data a i j rule: scanDownEqual.induct)
  case (1 lt data a i j)
  show ?case
  proof (cases "i \<le> j")
    case False
    with "1.prems" show ?thesis by simp
  next
    case True
    show ?thesis
    proof (cases "Less lt data a j")
      case (Inl e)
      with True "1.prems" show ?thesis by (simp add: andThen_def)
    next
      case (Inr c)
      show ?thesis
      proof (cases c)
        case True
        with \<open>i \<le> j\<close> Inr "1.prems" have "scanDownEqual lt data a i (j - 1) = Inr j'"
          by (simp add: andThen_def)
        with "1.IH" [OF \<open>i \<le> j\<close> Inr True] show ?thesis by simp
      next
        case False
        with \<open>i \<le> j\<close> Inr "1.prems" show ?thesis by (simp add: andThen_def)
      qed
    qed
  qed
qed

declare scanUpEqual.simps [simp del] scanDownEqual.simps [simp del]

function partitionEqualLoop ::
    "('a \<Rightarrow> 'a \<Rightarrow> error + bool) \<Rightarrow> 'a list \<Rightarrow> int \<Rightarrow> int \<Rightarrow> int \<Rightarrow> error + ('a list \<times> int \<times> int)" where
  "partitionEqualLoop lt data a i j =
     andThen (scanUpEqual lt data a i j)
       (\<lambda>i. andThen (scanDownEqual lt data a i j)
          (\<lambda>j. if i > j then Inr (data, i, j)
               else andThen (Swap data i j) (\<lambda>d. partitionEqualLoop lt d a (i + 1) (j - 1))))"
  by pat_completeness auto
termination
  by (relation "measure (\<lambda>(lt, data, a, i, j). nat (j + 1 - i))")
     (auto dest!: scanUpEqual_ge scanDownEqual_le)

lemma partitionEqualLoop_ge:
  "partitionEqualLoop lt data a i j = Inr (d, i', j') \<Longrightarrow> i \<le> i'"
proof (induction lt data a i j rule: partitionEqualLoop.induct)
  case (1 lt data a i j)
  from "1.prems"(1) obtain i1 where i1: "scanUpEqual lt data a i j = Inr i1"
    by (cases "scanUpEqual lt data a i j") (simp_all add: andThen_def)
  with "1.prems"(1) obtain j1 where j1: "scanDownEqual lt data a i1 j = Inr j1"
    by (cases "scanDownEqual lt data a i1 j") (simp_all add: andThen_def)
  show ?case
  proof (cases "i1 > j1")
    case True
    with i1 j1 "1.prems"(1) have "i' = i1" by (simp add: andThen_def)
    with scanUpEqual_ge [OF i1] show ?thesis by simp
  next
    case False
    with i1 j1 "1.prems"(1) obtain d1 where d1: "Swap data i1 j1 = Inr d1"
      by (cases "Swap data i1 j1") (simp_all add: andThen_def)
    with False i1 j1 "1.prems"(1) have
      r: "partitionEqualLoop lt d1 a (i1 + 1) (j1 - 1) = Inr (d, i', j')"
      by (simp add: andThen_def)
    from "1.IH" [OF i1 j1 False d1 r] scanUpEqual_ge [OF i1] show ?thesis by simp
  qed
qed

declare partitionEqualLoop.simps [simp del]

definition partitionEqual_func ::
    "('a \<Rightarrow> 'a \<Rightarrow> error + bool) \<Rightarrow> 'a list \<Rightarrow> int \<Rightarrow> int \<Rightarrow> int \<Rightarrow> error + ('a list \<times> int)" where
  "partitionEqual_func lt data a b pivot =
     andThen (Swap data a pivot)
       (\<lambda>data. andThen (partitionEqualLoop lt data a (a + 1) (b - 1))
          (\<lambda>(data, i, j). Inr (data, i)))"

lemma partitionEqual_func_bound:
  assumes "partitionEqual_func lt data a b pivot = Inr (d, mid)"
  shows "a < mid"
proof -
  from assms obtain d0 where d0: "Swap data a pivot = Inr d0"
    by (cases "Swap data a pivot") (simp_all add: partitionEqual_func_def andThen_def)
  with assms obtain d1 i1 j1 where r: "partitionEqualLoop lt d0 a (a + 1) (b - 1) = Inr (d1, i1, j1)"
    by (cases "partitionEqualLoop lt d0 a (a + 1) (b - 1)")
       (auto simp: partitionEqual_func_def andThen_def)
  with d0 assms have "mid = i1" by (simp add: partitionEqual_func_def andThen_def)
  with partitionEqualLoop_ge [OF r] show ?thesis by simp
qed

subsection \<open>\<open>pdqsort_func\<close> and \<open>Slice\<close>\<close>

text \<open>
  \<open>pdqsort_func(data, a, b, limit)\<close>. Its loop \<open>for { ... }\<close> carries \<open>a\<close>, \<open>b\<close>,
  \<open>limit\<close> and the two variables \<open>wasBalanced\<close> and \<open>wasPartitioned\<close> from one round to
  the next; they are arguments here, and a call of the Go function starts with both
  \<open>true\<close>. \<open>maxInsertion\<close> is 12.
\<close>

function pdqsort_func ::
    "('a \<Rightarrow> 'a \<Rightarrow> error + bool) \<Rightarrow> (int \<Rightarrow> nat \<Rightarrow> nat) \<Rightarrow> 'a list \<Rightarrow> int \<Rightarrow> int \<Rightarrow> int \<Rightarrow>
     bool \<Rightarrow> bool \<Rightarrow> error + 'a list" where
  "pdqsort_func lt random data a b limit wasBalanced wasPartitioned =
     (if b - a \<le> 12 then insertionSort_func lt data a b
      else if limit = 0 then heapSort_func lt data a b
      else
        andThen (if \<not> wasBalanced
                 then andThen (breakPatterns_func random data a b) (\<lambda>d. Inr (d, limit - 1))
                 else Inr (data, limit))
          (\<lambda>(data, limit).
        andThen (choosePivot_func lt data a b)
          (\<lambda>(pivot, hint).
        andThen (if hint = decreasingHint
                 then andThen (reverseRange_func data a b)
                        (\<lambda>d. Inr (d, (b - 1) - (pivot - a), increasingHint))
                 else Inr (data, pivot, hint))
          (\<lambda>(data, pivot, hint).
        andThen (if wasBalanced \<and> wasPartitioned \<and> hint = increasingHint
                 then partialInsertionSort_func lt data a b
                 else Inr (data, False))
          (\<lambda>(data, finished).
        if finished then Inr data
        else
        andThen (if a > 0 then andThen (Less lt data (a - 1) pivot) (\<lambda>c. Inr (\<not> c))
                 else Inr False)
          (\<lambda>equalCase.
        if equalCase
        then andThen (partitionEqual_func lt data a b pivot)
               (\<lambda>(data, mid).
                  pdqsort_func lt random data mid b limit wasBalanced wasPartitioned)
        else andThen (partition_func lt data a b pivot)
               (\<lambda>(data, mid, alreadyPartitioned).
                  if mid - a < b - mid
                  then andThen (pdqsort_func lt random data a mid limit True True)
                         (\<lambda>data. pdqsort_func lt random data (mid + 1) b limit
                                   (mid - a \<ge> (b - a) sdiv 8) alreadyPartitioned)
                  else andThen (pdqsort_func lt random data (mid + 1) b limit True True)
                         (\<lambda>data. pdqsort_func lt random data a mid limit
                                   (b - mid \<ge> (b - a) sdiv 8) alreadyPartitioned))))))))"
  by pat_completeness auto
termination
  by (relation "measure (\<lambda>(lt, random, data, a, b, limit, wb, wp). nat (b - a))")
     (auto dest!: partitionEqual_func_bound partition_func_bounds)

declare pdqsort_func.simps [simp del]

text \<open>
  \<^verbatim>\<open>length := rv.Len(); limit := bits.Len(uint(length));
  pdqsort_func(lessSwap{less, swap}, 0, length, limit)\<close>
\<close>

definition Slice :: "(int \<Rightarrow> nat \<Rightarrow> nat) \<Rightarrow> 'a sorter" where
  "Slice random lt data =
     (let len = int (length data); limit = int (bitsLen (nat len))
      in pdqsort_func lt random data 0 len limit True True)"
section \<open>The fan-in: \<open>aggregateICS\<close> (main.go)\<close>

text \<open>
  \<open>aggregateICS\<close> runs several goroutines: the handler itself, one goroutine for each
  URL that calls \<open>FetchICS\<close> and then \<open>wg.Done\<close>, and one that waits for the wait group
  and closes the channel. The model is the state of all of them together with one function
  per atomic action; an execution is a list of actions, chosen by the scheduler, that can
  be taken one after the other. The channel is unbuffered, so a send and the receive that
  takes it are one action. Nothing is assumed of the environment: a fetching goroutine
  may block for good in the network (\<open>http.Get\<close> and the reads of the body have no
  timeout), and the client may go away while the handler streams, upon which \<open>c.Stream\<close>
  of gin returns without another call of its step function.
\<close>

text \<open>
  A fetching goroutine is inside \<open>FetchICS\<close> with the values it still has to send, or
  is blocked for good in the network with values it will never send, or has left
  \<open>FetchICS\<close> and not yet run the deferred \<open>wg.Done()\<close>, or is through.
\<close>

datatype fetcher = Running "string list" | Stalled "string list" | Exited | Finished

text \<open>The closing goroutine: not launched, blocked in \<open>wg.Wait()\<close>, or through.\<close>

datatype closer_pc = NotStarted | Waiting | Closed

text \<open>
  The handler: in the \<open>for\<close> loop over the URLs, before \<open>writeICSHeader\<close>, inside
  \<open>c.Stream\<close>, before \<open>writeICSFooter\<close>, or through.
\<close>

datatype main_pc = Launching | Heading | Streaming | Footing | Ended

record Config =
  Header :: string
  Footer :: string

record agg_state =
  pc :: main_pc
  toLaunch :: "string list"
  fetchers :: "fetcher list"
  wg :: nat
  closer :: closer_pc
  closes :: nat
  received :: "string list"
  written :: "string list"
  panicked :: bool
  clientGone :: bool

datatype action =
    Launch
  | StartCloser
  | WriteHeader
  | Deliver nat
  | SendOnClosed nat
  | Return nat
  | Done nat
  | Close
  | EndStream
  | ClientGone
  | WriteFooter
  | Stall nat

text \<open>
  \<open>exec cfg get a s\<close> is the state after action \<open>a\<close>, or \<open>None\<close> when \<open>a\<close> cannot be
  taken in \<open>s\<close>.
  \<^item> \<open>Launch\<close>: one pass of the \<open>for\<close> loop, \<open>wg.Add(1)\<close> and the \<open>go\<close> statement.
  \<^item> \<open>StartCloser\<close>: the loop is over; the \<open>go\<close> statement of the closing goroutine.
  \<^item> \<open>Deliver i\<close>: goroutine \<open>i\<close> sends its next value and the step function of
    \<open>c.Stream\<close> receives and writes it.
  \<^item> \<open>SendOnClosed i\<close>: goroutine \<open>i\<close> sends on the closed channel, which panics.
  \<^item> \<open>Return i\<close>: \<open>FetchICS\<close> returns in goroutine \<open>i\<close>.
  \<^item> \<open>Done i\<close>: the deferred \<open>wg.Done()\<close> of goroutine \<open>i\<close>; below zero it panics.
  \<^item> \<open>Close\<close>: \<open>wg.Wait()\<close> returns, which needs the counter at zero, and
    \<open>close(eventChan)\<close>.
  \<^item> \<open>EndStream\<close>: the receive on the closed channel yields \<open>ok = false\<close>.
  \<^item> \<open>ClientGone\<close>: the client has gone away and \<open>c.Stream\<close> returns.
  \<^item> \<open>Stall i\<close>: goroutine \<open>i\<close> blocks for good in \<open>http.Get\<close> or in a read.
\<close>

definition exec :: "Config \<Rightarrow> (string \<Rightarrow> http_result) \<Rightarrow> action \<Rightarrow> agg_state \<Rightarrow> agg_state option" where
  "exec cfg get a s =
     (if panicked s then None
      else case a of
        Launch \<Rightarrow>
          (case toLaunch s of
             [] \<Rightarrow> None
           | url # rest \<Rightarrow>
               if pc s = Launching
               then Some (s\<lparr>toLaunch := rest, wg := wg s + 1,
                            fetchers := fetchers s @ [Running (FetchICS get url)]\<rparr>)
               else None)
      | StartCloser \<Rightarrow>
          if pc s = Launching \<and> toLaunch s = []
          then Some (s\<lparr>pc := Heading, closer := Waiting\<rparr>) else None
      | WriteHeader \<Rightarrow>
          if pc s = Heading
          then Some (s\<lparr>pc := Streaming, written := written s @ [Header cfg]\<rparr>) else None
      | Deliver i \<Rightarrow>
          if pc s = Streaming \<and> closes s = 0 \<and> i < length (fetchers s)
          then (case fetchers s ! i of
                  Running (v # vs) \<Rightarrow>
                    Some (s\<lparr>fetchers := (fetchers s)[i := Running vs],
                             received := received s @ [v], written := written s @ [v]\<rparr>)
                | _ \<Rightarrow> None)
          else None
      | SendOnClosed i \<Rightarrow>
          if 0 < closes s \<and> i < length (fetchers s)
          then (case fetchers s ! i of
                  Running (v # vs) \<Rightarrow> Some (s\<lparr>panicked := True\<rparr>)
                | _ \<Rightarrow> None)
          else None
      | Return i \<Rightarrow>
          if i < length (fetchers s) \<and> fetchers s ! i = Running []
          then Some (s\<lparr>fetchers := (fetchers s)[i := Exited]\<rparr>) else None
      | Done i \<Rightarrow>
          if i < length (fetchers s) \<and> fetchers s ! i = Exited
          then (if wg s = 0 then Some (s\<lparr>panicked := True\<rparr>)
                else Some (s\<lparr>fetchers := (fetchers s)[i := Finished], wg := wg s - 1\<rparr>))
          else None
      | Close \<Rightarrow>
          if closer s = Waiting \<and> wg s = 0
          then Some (s\<lparr>closer := Closed, closes := closes s + 1\<rparr>) else None
      | EndStream \<Rightarrow>
          if pc s = Streaming \<and> 0 < closes s then Some (s\<lparr>pc := Footing\<rparr>) else None
      | ClientGone \<Rightarrow>
          if pc s = Streaming then Some (s\<lparr>pc := Footing, clientGone := True\<rparr>) else None
      | WriteFooter \<Rightarrow>
          if pc s = Footing
          then Some (s\<lparr>pc := Ended, written := written s @ [Footer cfg]\<rparr>) else None
      | Stall i \<Rightarrow>
          if i < length (fetchers s)
          then (case fetchers s ! i of
                  Running vs \<Rightarrow> Some (s\<lparr>fetchers := (fetchers s)[i := Stalled vs]\<rparr>)
                | _ \<Rightarrow> None)
          else None)"

fun run :: "Config \<Rightarrow> (string \<Rightarrow> http_result) \<Rightarrow> action list \<Rightarrow> agg_state \<Rightarrow> agg_state option" where
  "run cfg get [] s = Some s"
| "run cfg get (a # as) s =
     (case exec cfg get a s of None \<Rightarrow> None | Some s' \<Rightarrow> run cfg get as s')"

definition start :: "string list \<Rightarrow> agg_state" where
  "start urls =
     \<lparr>pc = Launching, toLaunch = urls, fetchers = [], wg = 0, closer = NotStarted,
      closes = 0, received = [], written = [], panicked = False, clientGone = False\<rparr>"

definition ColombianHolidaysURL :: string where
  "ColombianHolidaysURL =
     ''https://www.officeholidays.com/ics/ics_country.php?tbl_country=Colombia''"

definition CanadianHolidaysURL :: string where
  "CanadianHolidaysURL =
     ''https://www.officeholidays.com/ics/ics_country.php?tbl_country=Canada''"

definition icsURLs :: "string list" where
  "icsURLs = [ColombianHolidaysURL, CanadianHolidaysURL]"

text \<open>
  \<open>aggregateICS\<close> under the schedule \<open>sched\<close>: the state it reaches, or \<open>None\<close> when
  the schedule asks for an action that cannot be taken.
\<close>

definition aggregateICS :: "Config \<Rightarrow> (string \<Rightarrow> http_result) \<Rightarrow> action list \<Rightarrow> agg_state option" where
  "aggregateICS cfg get sched = run cfg get sched (start icsURLs)"

text \<open>
  What a goroutine still has to send, the number of goroutines that have not run
  \<open>wg.Done()\<close>, the values that are still to be sent, and the invariant of the executions
  from \<open>start urls\<close>.
\<close>

fun pending_of :: "fetcher \<Rightarrow> string list" where
  "pending_of (Running vs) = vs"
| "pending_of (Stalled vs) = vs"
| "pending_of Exited = []"
| "pending_of Finished = []"

definition live :: "fetcher list \<Rightarrow> nat" where
  "live fs = length (filter (\<lambda>f. f \<noteq> Finished) fs)"

definition owed :: "fetcher list \<Rightarrow> string multiset" where
  "owed fs = mset (concat (map pending_of fs))"

definition agg_inv :: "Config \<Rightarrow> (string \<Rightarrow> http_result) \<Rightarrow> string list \<Rightarrow> agg_state \<Rightarrow> bool" where
  "agg_inv cfg get urls s \<longleftrightarrow>
     \<not> panicked s \<and>
     length (fetchers s) \<le> length urls \<and>
     toLaunch s = drop (length (fetchers s)) urls \<and>
     wg s = live (fetchers s) \<and>
     (pc s = Launching \<longleftrightarrow> closer s = NotStarted) \<and>
     (pc s \<noteq> Launching \<longrightarrow> toLaunch s = []) \<and>
     closes s = (if closer s = Closed then 1 else 0) \<and>
     (closer s = Closed \<longrightarrow> wg s = 0) \<and>
     (pc s = Footing \<or> pc s = Ended \<longrightarrow> closer s = Closed \<or> clientGone s) \<and>
     (pc s = Launching \<or> pc s = Heading \<longrightarrow> received s = []) \<and>
     mset (received s) + owed (fetchers s) =
       mset (concat (map (FetchICS get) (take (length (fetchers s)) urls))) \<and>
     written s =
       (if pc s = Launching \<or> pc s = Heading then [] else [Header cfg]) @ received s @
       (if pc s = Ended then [Footer cfg] else []) \<and>
     (clientGone s \<longrightarrow> pc s = Footing \<or> pc s = Ended)"

text \<open>
  A goroutine that is not blocked for good; the actions of an environment that answers
  every request and keeps reading; and a bound on the number of actions an execution can
  still take.
\<close>

fun not_stalled :: "fetcher \<Rightarrow> bool" where
  "not_stalled (Stalled vs) = False"
| "not_stalled f = True"

text \<open>
  \<open>held_up s\<close>: some goroutine will never run \<open>wg.Done()\<close>, because it is blocked
  for good in the network, or because it has a value to send and \<open>c.Stream\<close> has
  returned, so that nothing receives from the channel any more.
\<close>

fun has_value :: "fetcher \<Rightarrow> bool" where
  "has_value (Running (v # vs)) = True"
| "has_value f = False"

definition held_up :: "agg_state \<Rightarrow> bool" where
  "held_up s \<longleftrightarrow>
     list_ex (\<lambda>f. \<not> not_stalled f) (fetchers s) \<or>
     ((pc s = Footing \<or> pc s = Ended) \<and> list_ex has_value (fetchers s))"

definition cooperative :: "action \<Rightarrow> bool" where
  "cooperative a \<longleftrightarrow> (case a of ClientGone \<Rightarrow> False | Stall i \<Rightarrow> False | _ \<Rightarrow> True)"


fun fetcher_steps :: "fetcher \<Rightarrow> nat" where
  "fetcher_steps (Running vs) = length vs + 2"
| "fetcher_steps (Stalled vs) = 0"
| "fetcher_steps Exited = 1"
| "fetcher_steps Finished = 0"

definition steps_left :: "(string \<Rightarrow> http_result) \<Rightarrow> agg_state \<Rightarrow> nat" where
  "steps_left get s =
     (if panicked s then 0
      else 1 + sum_list (map (\<lambda>u. length (FetchICS get u) + 3) (toLaunch s)) +
        sum_list (map fetcher_steps (fetchers s)) +
        (case closer s of NotStarted \<Rightarrow> 1 | Waiting \<Rightarrow> 1 | Closed \<Rightarrow> 0) +
        (case pc s of Launching \<Rightarrow> 5 | Heading \<Rightarrow> 3 | Streaming \<Rightarrow> 2 | Footing \<Rightarrow> 1
           | Ended \<Rightarrow> 0))"

section \<open>Properties of the streaming path\<close>

lemma until_delim_Some:
  "until_delim d bs = Some (l, r) \<Longrightarrow> bs = l @ r \<and> l \<noteq> [] \<and> last l = d \<and> d \<notin> set (butlast l)"
  by (induction bs arbitrary: l) (auto split: if_splits option.splits)

lemma until_delim_None: "until_delim d bs = None \<longleftrightarrow> d \<notin> set bs"
  by (induction bs) (auto split: option.splits)

lemma until_delim_line:
  "l \<noteq> [] \<Longrightarrow> last l = d \<Longrightarrow> d \<notin> set (butlast l) \<Longrightarrow> until_delim d (l @ r) = Some (l, r)"
proof (induction l)
  case Nil then show ?case by simp
next
  case (Cons c l)
  show ?case
  proof (cases "l = []")
    case True with Cons.prems show ?thesis by simp
  next
    case False
    with Cons.prems have "c \<noteq> d" "last l = d" "d \<notin> set (butlast l)" by auto
    with Cons.IH False show ?thesis by simp
  qed
qed

lemma body_decompose:
  "\<exists>ls tail. bs = concat ls @ tail \<and> (\<forall>l\<in>set ls. is_line l) \<and> LF \<notin> set tail"
proof (induction bs rule: length_induct)
  case (1 bs)
  show ?case
  proof (cases "until_delim LF bs")
    case None
    then have "LF \<notin> set bs" by (simp add: until_delim_None)
    then have "bs = concat [] @ bs \<and> (\<forall>l\<in>set []. is_line l) \<and> LF \<notin> set bs" by simp
    then show ?thesis by blast
  next
    case (Some p)
    obtain l r where p: "p = (l, r)" by (cases p)
    from Some p have ud: "until_delim LF bs = Some (l, r)" by simp
    from until_delim_Some[OF ud] have bs: "bs = l @ r" and l: "is_line l"
      by (auto simp: is_line_def)
    from until_delim_shorter[OF ud] 1 obtain ls tail where
      "r = concat ls @ tail" "\<forall>l\<in>set ls. is_line l" "LF \<notin> set tail" by blast
    with bs l have "bs = concat (l # ls) @ tail \<and> (\<forall>l\<in>set (l # ls). is_line l) \<and> LF \<notin> set tail"
      by simp
    then show ?thesis by blast
  qed
qed

lemma feed_simps [simp]: "feed s [] = s" "feed s (l # ls) = feed (handleLine l s) ls"
  "feed s (ls @ ms) = feed (feed s ls) ms"
  by (simp_all add: feed_def)

lemma scanLoop_lines:
  assumes "\<forall>l\<in>set ls. is_line l" "LF \<notin> set tail"
  shows "scanLoop url (NewReader (concat ls @ tail) e) s =
     (if e = EOF then (Broke, feed s ls)
      else (Returned, send (''Error reading response body: '' @ url) (feed s ls)))"
  using assms
proof (induction ls arbitrary: s)
  case Nil
  then have "until_delim LF tail = None" by (simp add: until_delim_None)
  then show ?case
    by (subst scanLoop.simps) (cases e; simp add: ReadString_def NewReader_def)
next
  case (Cons l ls)
  then have "is_line l" by simp
  then have "until_delim LF (l @ concat ls @ tail) = Some (l, concat ls @ tail)"
    by (intro until_delim_line) (auto simp: is_line_def)
  then have "scanLoop url (NewReader (concat (l # ls) @ tail) e) s
     = scanLoop url (NewReader (concat ls @ tail) e) (handleLine l s)"
    by (subst scanLoop.simps) (simp add: ReadString_def NewReader_def)
  with Cons show ?case by simp
qed

lemma linesOf_line: "is_line l \<Longrightarrow> linesOf (l @ r) = l # linesOf r"
proof (induction l)
  case Nil then show ?case by (simp add: is_line_def)
next
  case (Cons c l)
  show ?case
  proof (cases "l = []")
    case True with Cons.prems show ?thesis by (simp add: is_line_def)
  next
    case False
    with Cons.prems have "c \<noteq> LF" "is_line l" by (auto simp: is_line_def)
    with Cons.IH show ?thesis by simp
  qed
qed

lemma linesOf_concat: "\<forall>l\<in>set ls. is_line l \<Longrightarrow> linesOf (concat ls) = ls"
proof (induction ls)
  case Nil then show ?case by simp
next
  case (Cons l ls)
  then show ?case using linesOf_line[of l "concat ls"] by simp
qed

lemma marker_lines: "is_line beginCRLF" "is_line beginLF" "is_line endCRLF" "is_line endLF"
  by (simp_all add: is_line_def beginCRLF_def beginLF_def endCRLF_def endLF_def LF_def CR_def)

lemma marker_distinct:
  "beginCRLF \<noteq> endCRLF" "beginCRLF \<noteq> endLF" "beginLF \<noteq> endCRLF" "beginLF \<noteq> endLF"
  "beginCRLF \<noteq> []" "beginLF \<noteq> []"
  by (simp_all add: beginCRLF_def beginLF_def endCRLF_def endLF_def)

lemma unit_of_lines:
  assumes "\<forall>l\<in>set ls. is_line l" "ls \<noteq> []"
  shows "startsWithBeginLine (concat ls) \<longleftrightarrow> hd ls = beginCRLF \<or> hd ls = beginLF"
    and "endsWithEndLine (concat ls) \<longleftrightarrow> last ls = endCRLF \<or> last ls = endLF"
proof -
  from assms have l: "linesOf (concat ls) = ls" by (simp add: linesOf_concat)
  from assms(2) obtain x xs where "ls = x # xs" by (cases ls) auto
  then show "startsWithBeginLine (concat ls) \<longleftrightarrow> hd ls = beginCRLF \<or> hd ls = beginLF"
    unfolding startsWithBeginLine_def l by simp
  from assms(2) obtain ys y where "ls = ys @ [y]" by (cases ls rule: rev_cases) auto
  then show "endsWithEndLine (concat ls) \<longleftrightarrow> last ls = endCRLF \<or> last ls = endLF"
    unfolding endsWithEndLine_def l by simp
qed

lemma acc_ok_partial:
  assumes "acc_ok s" "inEvent s"
  shows "startsWithBeginLine (event s) \<and> \<not> endsWithEndLine (event s) \<and> event s \<noteq> []"
proof -
  from assms obtain ls where ls: "event s = concat ls" "ls \<noteq> []" "hd ls = beginCRLF \<or> hd ls = beginLF"
     "\<forall>l\<in>set ls. is_line l" "\<forall>l\<in>set (tl ls). l \<noteq> endCRLF \<and> l \<noteq> endLF"
    by (auto simp: acc_ok_def)
  have "last ls \<noteq> endCRLF \<and> last ls \<noteq> endLF"
  proof (cases "tl ls = []")
    case True
    with ls(2) have "last ls = hd ls" by (cases ls) auto
    with ls(3) show ?thesis using marker_distinct by auto
  next
    case False
    with ls(2) have "last ls \<in> set (tl ls)" by (cases ls) auto
    with ls(5) show ?thesis by blast
  qed
  moreover have "event s \<noteq> []" using ls(1-3) marker_distinct by (cases ls) auto
  ultimately show ?thesis using unit_of_lines[OF ls(4) ls(2)] ls(1,3) by simp
qed

lemma handleLine_ok:
  assumes "is_line l" "acc_ok s" "chan_ok s"
  shows "acc_ok (handleLine l s) \<and> chan_ok (handleLine l s)"
proof (cases "l = beginCRLF \<or> l = beginLF")
  case True
  then have "handleLine l s = s\<lparr>inEvent := True, event := l\<rparr>" by (simp add: handleLine_def)
  moreover have "\<exists>ls. l = concat ls \<and> ls \<noteq> [] \<and> (hd ls = beginCRLF \<or> hd ls = beginLF) \<and>
              (\<forall>l\<in>set ls. is_line l) \<and> (\<forall>l\<in>set (tl ls). l \<noteq> endCRLF \<and> l \<noteq> endLF)"
    using True assms(1) by (intro exI[of _ "[l]"]) simp
  ultimately show ?thesis using assms(3) by (simp add: acc_ok_def chan_ok_def)
next
  case nb: False
  show ?thesis
  proof (cases "inEvent s")
    case False
    with nb have "handleLine l s = s" by (simp add: handleLine_def)
    with assms show ?thesis by simp
  next
    case True
    with assms(2) obtain ls where ls: "event s = concat ls" "ls \<noteq> []" "hd ls = beginCRLF \<or> hd ls = beginLF"
      "\<forall>l\<in>set ls. is_line l" "\<forall>l\<in>set (tl ls). l \<noteq> endCRLF \<and> l \<noteq> endLF"
      by (auto simp: acc_ok_def)
    let ?ls = "ls @ [l]"
    have c: "event s @ l = concat ?ls" using ls(1) by simp
    have lines: "\<forall>x\<in>set ?ls. is_line x" using ls(4) assms(1) by simp
    have hd: "hd ?ls = beginCRLF \<or> hd ?ls = beginLF" using ls(2,3) by simp
    show ?thesis
    proof (cases "l = endCRLF \<or> l = endLF")
      case True
      with nb \<open>inEvent s\<close> have h: "handleLine l s =
         s\<lparr>event := [], inEvent := False, eventChan := eventChan s @ [event s @ l]\<rparr>"
        by (simp add: handleLine_def send_def Let_def)
      have "startsWithBeginLine (event s @ l) \<and> endsWithEndLine (event s @ l)"
        unfolding c using unit_of_lines[OF lines] hd True by simp
      with assms(3) show ?thesis unfolding h by (simp add: acc_ok_def chan_ok_def)
    next
      case False
      with nb \<open>inEvent s\<close> have h: "handleLine l s = s\<lparr>event := event s @ l\<rparr>"
        by (simp add: handleLine_def Let_def)
      have "\<forall>x\<in>set (tl ?ls). x \<noteq> endCRLF \<and> x \<noteq> endLF" using ls(2,5) False by auto
      with c lines hd have "\<exists>ms. event s @ l = concat ms \<and> ms \<noteq> [] \<and> (hd ms = beginCRLF \<or> hd ms = beginLF) \<and>
              (\<forall>l\<in>set ms. is_line l) \<and> (\<forall>l\<in>set (tl ms). l \<noteq> endCRLF \<and> l \<noteq> endLF)"
        by (intro exI[of _ ?ls]) simp
      with \<open>inEvent s\<close> assms(3) show ?thesis unfolding h by (simp add: acc_ok_def chan_ok_def)
    qed
  qed
qed

lemma feed_ok:
  "\<forall>l\<in>set ls. is_line l \<Longrightarrow> acc_ok s \<Longrightarrow> chan_ok s \<Longrightarrow> acc_ok (feed s ls) \<and> chan_ok (feed s ls)"
  by (induction ls arbitrary: s) (auto dest: handleLine_ok)

lemma initial_ok: "acc_ok initial" "chan_ok initial"
  by (simp_all add: acc_ok_def chan_ok_def initial_def)

lemma scanLoop_initial:
  "\<exists>ls. (\<forall>l\<in>set ls. is_line l) \<and> acc_ok (feed initial ls) \<and> chan_ok (feed initial ls) \<and>
     scanLoop url (NewReader body e) initial =
       (if e = EOF then (Broke, feed initial ls)
        else (Returned, send (''Error reading response body: '' @ url) (feed initial ls)))"
proof -
  obtain ls tail where d: "body = concat ls @ tail" "\<forall>l\<in>set ls. is_line l" "LF \<notin> set tail"
    using body_decompose by blast
  from feed_ok[OF d(2) initial_ok] scanLoop_lines[OF d(2,3)] d(1,2) show ?thesis by blast
qed

lemma FetchICS_shape:
  assumes "get url = Response body e"
  shows "\<exists>t. acc_ok t \<and> chan_ok t \<and>
     scanLoop url (NewReader body e) initial =
       (if e = EOF then (Broke, t)
        else (Returned, send (''Error reading response body: '' @ url) t)) \<and>
     FetchICS get url =
       eventChan t @ (if e \<noteq> EOF then [''Error reading response body: '' @ url]
                      else if inEvent t then [event t] else [])"
proof -
  obtain ls where ls: "acc_ok (feed initial ls)" "chan_ok (feed initial ls)"
    "scanLoop url (NewReader body e) initial =
       (if e = EOF then (Broke, feed initial ls)
        else (Returned, send (''Error reading response body: '' @ url) (feed initial ls)))"
    using scanLoop_initial by blast
  let ?t = "feed initial ls"
  have ne: "inEvent ?t \<longleftrightarrow> event ?t \<noteq> []"
    using ls(1) acc_ok_partial[of ?t] by (cases "inEvent ?t") (simp_all add: acc_ok_def)
  have "FetchICS get url =
       eventChan ?t @ (if e \<noteq> EOF then [''Error reading response body: '' @ url]
                      else if inEvent ?t then [event ?t] else [])"
    using assms ls(3) ne by (simp add: FetchICS_def send_def)
  with ls show ?thesis by blast
qed

lemma linesOf_hd: "linesOf (c # cs) = l # ls \<Longrightarrow> l \<noteq> [] \<and> hd l = c"
  by (auto split: if_splits list.splits)

lemma startsWithBeginLine_hd: "startsWithBeginLine u \<Longrightarrow> u \<noteq> [] \<and> hd u = CHR ''B''"
proof (cases u)
  case Nil
  then show "startsWithBeginLine u \<Longrightarrow> ?thesis" by (simp add: startsWithBeginLine_def)
next
  case (Cons c cs)
  assume "startsWithBeginLine u"
  then obtain l ls where l: "linesOf (c # cs) = l # ls" "l = beginCRLF \<or> l = beginLF"
    unfolding startsWithBeginLine_def Cons by (auto split: list.splits)
  from linesOf_hd[OF l(1)] l(2) have "c = CHR ''B''"
    by (auto simp: beginCRLF_def beginLF_def)
  with Cons show ?thesis by simp
qed

lemma sentinel_not_unit: "\<not> startsWithBeginLine (''Error reading response body: '' @ url)"
  using startsWithBeginLine_hd [of "''Error reading response body: '' @ url"] by auto

lemma toCRLF_simps [simp]:
  "toCRLF [] = []" "toCRLF (u @ v) = toCRLF u @ toCRLF v"
  by (simp_all add: toCRLF_def)

lemma toCRLF_noLF: "LF \<notin> set l \<Longrightarrow> toCRLF l = l"
  by (induction l) (auto simp: toCRLF_def)

lemma toCRLF_line: "LF \<notin> set l \<Longrightarrow> toCRLF (l @ [LF]) = l @ [CR, LF]"
  by (simp add: toCRLF_noLF) (simp add: toCRLF_def)

lemma marker_CRLF:
  "l @ [CR, LF] = beginCRLF \<longleftrightarrow> l = ''BEGIN:VEVENT''"
  "l @ [CR, LF] = endCRLF \<longleftrightarrow> l = ''END:VEVENT''"
  "l @ [LF] = beginLF \<longleftrightarrow> l = ''BEGIN:VEVENT''"
  "l @ [LF] = endLF \<longleftrightarrow> l = ''END:VEVENT''"
  "l @ [LF] = beginCRLF \<longleftrightarrow> l = ''BEGIN:VEVENT'' @ [CR]"
  "l @ [LF] = endCRLF \<longleftrightarrow> l = ''END:VEVENT'' @ [CR]"
  "l @ [CR, LF] \<noteq> beginLF"
  "l @ [CR, LF] \<noteq> endLF"
proof -
  have a: "l @ [CR, LF] = m @ [CR, LF] \<longleftrightarrow> l = m" for m by simp
  have b: "l @ [LF] = m @ [LF] \<longleftrightarrow> l = m" for m by simp
  have c: "l @ [CR, LF] = (l @ [CR]) @ [LF]" by simp
  show "l @ [CR, LF] = beginCRLF \<longleftrightarrow> l = ''BEGIN:VEVENT''"
    unfolding beginCRLF_def by (rule a)
  show "l @ [CR, LF] = endCRLF \<longleftrightarrow> l = ''END:VEVENT''"
    unfolding endCRLF_def by (rule a)
  show "l @ [LF] = beginLF \<longleftrightarrow> l = ''BEGIN:VEVENT''"
    unfolding beginLF_def by (rule b)
  show "l @ [LF] = endLF \<longleftrightarrow> l = ''END:VEVENT''"
    unfolding endLF_def by (rule b)
  have "l @ [LF] = (''BEGIN:VEVENT'' @ [CR]) @ [LF] \<longleftrightarrow> l = ''BEGIN:VEVENT'' @ [CR]"
    by (rule append1_eq_conv[THEN iffD1, THEN conjunct1, THEN iffI]) simp_all
  then show "l @ [LF] = beginCRLF \<longleftrightarrow> l = ''BEGIN:VEVENT'' @ [CR]"
    by (simp add: beginCRLF_def)
  have "l @ [LF] = (''END:VEVENT'' @ [CR]) @ [LF] \<longleftrightarrow> l = ''END:VEVENT'' @ [CR]"
    by (rule append1_eq_conv[THEN iffD1, THEN conjunct1, THEN iffI]) simp_all
  then show "l @ [LF] = endCRLF \<longleftrightarrow> l = ''END:VEVENT'' @ [CR]"
    by (simp add: endCRLF_def)
  have "(l @ [CR]) @ [LF] = ''BEGIN:VEVENT'' @ [LF] \<longleftrightarrow> l @ [CR] = ''BEGIN:VEVENT''"
    by (rule append1_eq_conv[THEN iffD1, THEN conjunct1, THEN iffI]) simp_all
  moreover have "l @ [CR] \<noteq> ''BEGIN:VEVENT''"
  proof
    assume "l @ [CR] = ''BEGIN:VEVENT''"
    then have "last (l @ [CR]) = last ''BEGIN:VEVENT''" by (rule arg_cong)
    then show False by (simp add: CR_def)
  qed
  ultimately show "l @ [CR, LF] \<noteq> beginLF" by (simp add: beginLF_def)
  have "(l @ [CR]) @ [LF] = ''END:VEVENT'' @ [LF] \<longleftrightarrow> l @ [CR] = ''END:VEVENT''"
    by (rule append1_eq_conv[THEN iffD1, THEN conjunct1, THEN iffI]) simp_all
  moreover have "l @ [CR] \<noteq> ''END:VEVENT''"
  proof
    assume "l @ [CR] = ''END:VEVENT''"
    then have "last (l @ [CR]) = last ''END:VEVENT''" by (rule arg_cong)
    then show False by (simp add: CR_def)
  qed
  ultimately show "l @ [CR, LF] \<noteq> endLF" by (simp add: endLF_def)
qed

lemma handleLine_sim:
  assumes "same_state s1 s2" "toCRLF l2 = l1"
    "(l1 = beginCRLF \<or> l1 = beginLF) \<longleftrightarrow> (l2 = beginCRLF \<or> l2 = beginLF)"
    "(l1 = endCRLF \<or> l1 = endLF) \<longleftrightarrow> (l2 = endCRLF \<or> l2 = endLF)"
  shows "same_state (handleLine l1 s1) (handleLine l2 s2)"
proof -
  have app: "toCRLF (event s2 @ l2) = toCRLF (event s2) @ l1" using assms(2) by simp
  show ?thesis
  proof (cases "l2 = beginCRLF \<or> l2 = beginLF")
    case True
    with assms(3) have "l1 = beginCRLF \<or> l1 = beginLF" by simp
    with True assms(1,2) show ?thesis by (simp add: handleLine_def same_state_def)
  next
    case nb: False
    with assms(3) have nb1: "\<not> (l1 = beginCRLF \<or> l1 = beginLF)" by simp
    show ?thesis
    proof (cases "l2 = endCRLF \<or> l2 = endLF")
      case True
      with assms(4) have "l1 = endCRLF \<or> l1 = endLF" by simp
      with True nb nb1 assms(1) app show ?thesis
        by (simp add: handleLine_def same_state_def send_def Let_def)
    next
      case False
      with assms(4) have "\<not> (l1 = endCRLF \<or> l1 = endLF)" by simp
      with False nb nb1 assms(1) app show ?thesis
        by (simp add: handleLine_def same_state_def send_def Let_def)
    qed
  qed
qed

lemma handleLine_same_state:
  assumes "same_state s1 s2" "LF \<notin> set l"
    "l \<noteq> ''BEGIN:VEVENT'' @ [CR]" "l \<noteq> ''END:VEVENT'' @ [CR]"
  shows "same_state (handleLine (l @ [CR, LF]) s1) (handleLine (l @ [LF]) s2)"
proof (rule handleLine_sim [OF assms(1)])
  show "toCRLF (l @ [LF]) = l @ [CR, LF]" using assms(2) by (rule toCRLF_line)
  show "(l @ [CR, LF] = beginCRLF \<or> l @ [CR, LF] = beginLF) \<longleftrightarrow>
        (l @ [LF] = beginCRLF \<or> l @ [LF] = beginLF)"
    by (simp only: marker_CRLF assms(3) simp_thms)
  show "(l @ [CR, LF] = endCRLF \<or> l @ [CR, LF] = endLF) \<longleftrightarrow>
        (l @ [LF] = endCRLF \<or> l @ [LF] = endLF)"
    by (simp only: marker_CRLF assms(4) simp_thms)
qed

lemma feed_same_state:
  assumes "\<forall>l\<in>set ls. LF \<notin> set l \<and> l \<noteq> ''BEGIN:VEVENT'' @ [CR] \<and> l \<noteq> ''END:VEVENT'' @ [CR]"
    and "same_state s1 s2"
  shows "same_state (feed s1 (map (\<lambda>l. l @ [CR, LF]) ls)) (feed s2 (map (\<lambda>l. l @ [LF]) ls))"
  using assms
proof (induction ls arbitrary: s1 s2)
  case Nil then show ?case by simp
next
  case (Cons l ls)
  then have "same_state (handleLine (l @ [CR, LF]) s1) (handleLine (l @ [LF]) s2)"
    by (intro handleLine_same_state) simp_all
  with Cons show ?case by simp
qed

lemma joinLines_lines:
  assumes "\<forall>l\<in>set ls. LF \<notin> set l"
  shows "\<forall>l\<in>set (map (\<lambda>l. l @ [CR, LF]) ls). is_line l"
    and "\<forall>l\<in>set (map (\<lambda>l. l @ [LF]) ls). is_line l"
  using assms by (auto simp: is_line_def butlast_append CR_def LF_def)

lemma terminators_correspond:
  assumes "\<forall>l\<in>set ls. LF \<notin> set l \<and> l \<noteq> ''BEGIN:VEVENT'' @ [CR] \<and> l \<noteq> ''END:VEVENT'' @ [CR]"
  shows "FetchICS (\<lambda>_. Response (joinLines [CR, LF] ls) EOF) url =
         map toCRLF (FetchICS (\<lambda>_. Response (joinLines [LF] ls) EOF) url)"
proof -
  let ?c = "map (\<lambda>l. l @ [CR, LF]) ls" and ?n = "map (\<lambda>l. l @ [LF]) ls"
  from assms have nl: "\<forall>l\<in>set ls. LF \<notin> set l" by blast
  have c: "scanLoop url (NewReader (joinLines [CR, LF] ls) EOF) initial = (Broke, feed initial ?c)"
    using scanLoop_lines [OF joinLines_lines(1) [OF nl], of "[]" url EOF initial]
    by (simp add: joinLines_def)
  have n: "scanLoop url (NewReader (joinLines [LF] ls) EOF) initial = (Broke, feed initial ?n)"
    using scanLoop_lines [OF joinLines_lines(2) [OF nl], of "[]" url EOF initial]
    by (simp add: joinLines_def)
  have "same_state initial initial" by (simp add: same_state_def initial_def)
  from feed_same_state [OF assms this]
  have s: "same_state (feed initial ?c) (feed initial ?n)" .
  have e: "event (feed initial ?c) = [] \<longleftrightarrow> event (feed initial ?n) = []"
    using s by (cases "event (feed initial ?n)") (auto simp: same_state_def toCRLF_def)
  show ?thesis using s e by (simp add: FetchICS_def c n send_def same_state_def)
qed

lemma plain_not_marker:
  assumes "plain l" "t = [LF] \<or> t = [CR, LF]"
  shows "l @ t \<noteq> beginCRLF" "l @ t \<noteq> beginLF" "l @ t \<noteq> endCRLF" "l @ t \<noteq> endLF"
  using assms marker_CRLF [of l] unfolding plain_def by blast+

lemma feed_idle:
  assumes "\<not> inEvent s" "\<forall>l\<in>set ls. l \<noteq> beginCRLF \<and> l \<noteq> beginLF"
  shows "feed s ls = s"
  using assms
proof (induction ls)
  case Nil then show ?case by simp
next
  case (Cons l ls)
  then have "handleLine l s = s" by (simp add: handleLine_def)
  with Cons show ?case by simp
qed

lemma feed_accumulate:
  assumes "inEvent s"
    "\<forall>l\<in>set ls. l \<noteq> beginCRLF \<and> l \<noteq> beginLF \<and> l \<noteq> endCRLF \<and> l \<noteq> endLF"
  shows "feed s ls = s\<lparr>event := event s @ concat ls\<rparr>"
  using assms
proof (induction ls arbitrary: s)
  case Nil then show ?case by simp
next
  case (Cons l ls)
  then have h: "handleLine l s = s\<lparr>event := event s @ l\<rparr>"
    by (simp add: handleLine_def Let_def)
  have "inEvent (s\<lparr>event := event s @ l\<rparr>)" using Cons.prems(1) by simp
  from Cons.IH [OF this] Cons.prems(2) h show ?case by simp
qed

lemma markers_with_terminator:
  assumes "t = [LF] \<or> t = [CR, LF]"
  shows "''BEGIN:VEVENT'' @ t = beginCRLF \<or> ''BEGIN:VEVENT'' @ t = beginLF"
    and "''END:VEVENT'' @ t = endCRLF \<or> ''END:VEVENT'' @ t = endLF"
    and "''BEGIN:VEVENT'' @ t \<noteq> []"
  using assms by (auto simp: beginCRLF_def beginLF_def endCRLF_def endLF_def)

lemma one_event_recognised:
  assumes t: "t = [LF] \<or> t = [CR, LF]"
    and p: "\<forall>l\<in>set (pre @ ev @ post). plain l"
  shows "FetchICS (\<lambda>_. Response
            (joinLines t (pre @ [''BEGIN:VEVENT''] @ ev @ [''END:VEVENT''] @ post)) EOF) url
         = [joinLines t ([''BEGIN:VEVENT''] @ ev @ [''END:VEVENT''])]"
proof -
  let ?B = "''BEGIN:VEVENT'' @ t" and ?E = "''END:VEVENT'' @ t"
  let ?w = "map (\<lambda>l. l @ t)"
  let ?all = "?w pre @ [?B] @ ?w ev @ [?E] @ ?w post"
  have wt: "is_line (l @ t)" if "LF \<notin> set l" for l
    using that t by (auto simp: is_line_def butlast_append CR_def LF_def)
  have nl: "LF \<notin> set l" if "l \<in> set (pre @ ev @ post)" for l
    using p that by (auto simp: plain_def)
  have lB: "is_line ?B" "is_line ?E"
    using markers_with_terminator(1,2) [OF t] marker_lines by metis+
  have lines: "\<forall>l\<in>set ?all. is_line l"
    using nl wt lB by auto
  have body: "joinLines t (pre @ [''BEGIN:VEVENT''] @ ev @ [''END:VEVENT''] @ post) = concat ?all @ []"
    by (simp add: joinLines_def)
  have loop: "scanLoop url (NewReader (joinLines t (pre @ [''BEGIN:VEVENT''] @ ev @ [''END:VEVENT''] @ post)) EOF) initial
      = (Broke, feed initial ?all)"
    unfolding body using scanLoop_lines [OF lines, of "[]" url EOF initial] by simp
  have nm: "\<forall>l\<in>set (?w xs). l \<noteq> beginCRLF \<and> l \<noteq> beginLF \<and> l \<noteq> endCRLF \<and> l \<noteq> endLF"
    if "set xs \<subseteq> set (pre @ ev @ post)" for xs
    using that p plain_not_marker [OF _ t] by auto
  have s1: "feed initial (?w pre) = initial"
    using nm [of pre] by (intro feed_idle) (auto simp: initial_def)
  have s2: "handleLine ?B initial = \<lparr>event = ?B, inEvent = True, eventChan = []\<rparr>"
    using markers_with_terminator(1) [OF t] by (auto simp: handleLine_def initial_def)
  have s3: "feed \<lparr>event = ?B, inEvent = True, eventChan = []\<rparr> (?w ev)
      = \<lparr>event = ?B @ concat (?w ev), inEvent = True, eventChan = []\<rparr>"
    using nm [of ev] by (subst feed_accumulate) auto
  have nb: "?E \<noteq> beginCRLF" "?E \<noteq> beginLF"
    using t by (auto simp: beginCRLF_def beginLF_def)
  have s4: "handleLine ?E \<lparr>event = ?B @ concat (?w ev), inEvent = True, eventChan = []\<rparr>
      = \<lparr>event = [], inEvent = False, eventChan = [?B @ concat (?w ev) @ ?E]\<rparr>"
    using markers_with_terminator(2) [OF t] nb
    by (simp add: handleLine_def send_def Let_def)
  have s5: "feed \<lparr>event = [], inEvent = False, eventChan = [?B @ concat (?w ev) @ ?E]\<rparr> (?w post)
      = \<lparr>event = [], inEvent = False, eventChan = [?B @ concat (?w ev) @ ?E]\<rparr>"
    using nm [of post] by (intro feed_idle) auto
  have "feed initial ?all = \<lparr>event = [], inEvent = False, eventChan = [?B @ concat (?w ev) @ ?E]\<rparr>"
    by (simp only: feed_simps s1 s2 s3 s4 s5)
  with loop show ?thesis by (simp add: FetchICS_def joinLines_def)
qed

section \<open>Properties of the batch path\<close>

lemma insertInto_insort:
  assumes "\<forall>a\<in>set (x # ys). \<forall>b\<in>set (x # ys). lt a b = Inr (key a < key b)"
  shows "insertInto lt x ys = Inr (insort_key key x ys)"
  using assms
proof (induction ys)
  case Nil then show ?case by simp
next
  case (Cons y ys)
  then have IH: "insertInto lt x ys = Inr (insort_key key x ys)" by simp
  from Cons.prems have c: "lt y x = Inr (key y < key x)" by simp
  show ?case using IH c by (auto simp: not_less split: bool.splits)
qed

lemma insertionSort_sort_key:
  assumes "\<forall>a\<in>set xs. \<forall>b\<in>set xs. lt a b = Inr (key a < key b)"
  shows "insertionSort lt xs = Inr (sort_key key xs)"
  using assms
proof (induction xs)
  case Nil then show ?case by simp
next
  case (Cons x xs)
  then have IH: "insertionSort lt xs = Inr (sort_key key xs)" by simp
  have "\<forall>a\<in>set (x # sort_key key xs). \<forall>b\<in>set (x # sort_key key xs). lt a b = Inr (key a < key b)"
    using Cons.prems by simp
  from insertInto_insort [OF this] IH show ?case by simp
qed

lemma insertionSort_contract: "sortSlice_contract insertionSort"
  unfolding sortSlice_contract_def
proof (intro allI impI)
  fix lt :: "'a \<Rightarrow> 'a \<Rightarrow> error + bool" and xs and key :: "'a \<Rightarrow> string"
  assume "\<forall>a\<in>set xs. \<forall>b\<in>set xs. lt a b = Inr (key a < key b)"
  then have "insertionSort lt xs = Inr (sort_key key xs)" by (rule insertionSort_sort_key)
  then show "\<exists>ys. insertionSort lt xs = Inr ys \<and> mset ys = mset xs \<and> sorted (map key ys)"
    by simp
qed

lemma lessFn_dated:
  "hasDtStart a \<Longrightarrow> hasDtStart b \<Longrightarrow> lessFn a b = Inr (startTime a < startTime b)"
  by (auto simp: hasDtStart_def lessFn_def startTime_def)

lemma lessFn_panics:
  "lessFn a b = Inl NilDereference \<longleftrightarrow> \<not> hasDtStart a \<or> \<not> hasDtStart b"
  by (auto simp: hasDtStart_def lessFn_def split: option.splits)

lemma eventsOf_append: "eventsOf (cs @ ds) = eventsOf cs @ eventsOf ds"
  by (induction cs rule: eventsOf.induct) simp_all

lemma eventsOf_Event: "eventsOf (map Event es) = es"
  by (induction es) simp_all

lemma addEvents_valid:
  assumes "p < length h"
  shows "addEvents h p es =
     Inr (h[p := (h ! p)\<lparr>Components := Components (h ! p) @ map Event es\<rparr>])"
  using assms
proof (induction es arbitrary: h)
  case Nil then show ?case by simp
next
  case (Cons e es)
  let ?h = "h[p := (h ! p)\<lparr>Components := Components (h ! p) @ [Event e]\<rparr>]"
  from Cons.prems have a: "AddVEvent h p e = Inr ?h" by (simp add: AddVEvent_def deref_def)
  from Cons.prems have "p < length ?h" by simp
  from Cons.IH [OF this] a Cons.prems show ?case by simp
qed

lemma combine_with_sorted:
  assumes "cal1 < length h" "cal2 < length h"
    and "sortSlice lessFn (eventsAt h cal1 @ eventsAt h cal2) = Inr ys"
  shows "\<exists>c. combineCalendars sortSlice h cal1 cal2 = Inr (length h, h @ [c]) \<and>
           eventsOf (Components c) = ys"
proof -
  define new where "new = \<lparr>Components = [],
    CalendarProperties = [\<lparr>IANAToken = ''VERSION'', Value = ''2.0''\<rparr>]\<rparr>"
  define h1 where "h1 = h @ [new]"
  have n: "NewCalendar h = (length h, h1)" by (simp add: NewCalendar_def h1_def new_def)
  have e1: "EventsOfArgument h h1 cal1 = Inr (eventsAt h cal1)"
    "EventsOfArgument h h1 cal2 = Inr (eventsAt h cal2)"
    using assms(1,2)
    by (simp_all add: EventsOfArgument_def Events_def deref_def eventsAt_def nth_append h1_def)
  have "addEvents h1 (length h) ys = Inr (h @ [new\<lparr>Components := map Event ys\<rparr>])"
    unfolding h1_def by (subst addEvents_valid) (simp_all add: new_def)
  with n e1 assms(3) have "combineCalendars sortSlice h cal1 cal2
      = Inr (length h, h @ [new\<lparr>Components := map Event ys\<rparr>])"
    by (simp add: combineCalendars_def)
  moreover have "eventsOf (Components (new\<lparr>Components := map Event ys\<rparr>)) = ys"
    by (simp add: eventsOf_Event)
  ultimately show ?thesis by blast
qed

lemma combineCalendars_frame:
  assumes "combineCalendars sortSlice h cal1 cal2 = Inr (c, h')"
  shows "c = length h \<and> (\<exists>new. h' = h @ [new])"
proof -
  define new where "new = \<lparr>Components = [],
    CalendarProperties = [\<lparr>IANAToken = ''VERSION'', Value = ''2.0''\<rparr>]\<rparr>"
  define h1 where "h1 = h @ [new]"
  have n: "NewCalendar h = (length h, h1)" by (simp add: NewCalendar_def h1_def new_def)
  have add: "addEvents h1 (length h) ys = Inr (h @ [new\<lparr>Components := map Event ys\<rparr>])" for ys
    unfolding h1_def by (subst addEvents_valid) (simp_all add: new_def)
  show ?thesis
  proof (cases "EventsOfArgument h h1 cal1")
    case Inl with assms n show ?thesis by (simp add: combineCalendars_def)
  next
    case e1: (Inr ev1)
    show ?thesis
    proof (cases "EventsOfArgument h h1 cal2")
      case Inl with assms n e1 show ?thesis by (simp add: combineCalendars_def)
    next
      case e2: (Inr ev2)
      show ?thesis
      proof (cases "sortSlice lessFn (ev1 @ ev2)")
        case Inl with assms n e1 e2 show ?thesis by (simp add: combineCalendars_def)
      next
        case (Inr ys)
        with assms n e1 e2 add [of ys] show ?thesis by (auto simp: combineCalendars_def)
      qed
    qed
  qed
qed

lemma combineCalendars_dated:
  assumes "sortSlice_contract sortSlice" "cal1 < length h" "cal2 < length h"
    "\<forall>e\<in>set (eventsAt h cal1 @ eventsAt h cal2). hasDtStart e"
  shows "\<exists>new. combineCalendars sortSlice h cal1 cal2 = Inr (length h, h @ [new]) \<and>
      mset (eventsOf (Components new)) = mset (eventsAt h cal1 @ eventsAt h cal2) \<and>
      sorted (map startTime (eventsOf (Components new)))"
proof -
  let ?xs = "eventsAt h cal1 @ eventsAt h cal2"
  have "\<forall>a\<in>set ?xs. \<forall>b\<in>set ?xs. lessFn a b = Inr (startTime a < startTime b)"
    using assms(4) by (blast intro: lessFn_dated)
  with assms(1) obtain ys where ys: "sortSlice lessFn ?xs = Inr ys" "mset ys = mset ?xs"
    "sorted (map startTime ys)"
    unfolding sortSlice_contract_def by blast
  from combine_with_sorted [where sortSlice = sortSlice, OF assms(2,3) ys(1)] ys(2,3)
  show ?thesis by blast
qed

lemma mock_dated:
  "\<forall>e\<in>set (eventsAt [mockColombianCalendar, mockCanadianCalendar] 0 @
            eventsAt [mockColombianCalendar, mockCanadianCalendar] 1). hasDtStart e"
  by (simp add: eventsAt_def mockColombianCalendar_def mockCanadianCalendar_def hasDtStart_def
      GetProperty_def mkEvent_def ComponentPropertyDtStart_def)

lemma mock_run:
  "combineCalendars insertionSort [mockColombianCalendar, mockCanadianCalendar] 0 1 =
     Inr (2, [mockColombianCalendar, mockCanadianCalendar,
        \<lparr>Components = [Event (mkEvent ''Colombian New Year'' ''20230101''),
                       Event (mkEvent ''Canadian New Year'' ''20230101''),
                       Event (mkEvent ''Canada Day'' ''20230701''),
                       Event (mkEvent ''Colombian Independence Day'' ''20230720'')],
          CalendarProperties = [\<lparr>IANAToken = ''VERSION'', Value = ''2.0''\<rparr>]\<rparr>])"
  by code_simp

lemma combine_nil_argument:
  assumes "\<not> cal1 < length h \<or> \<not> cal2 < length h"
  shows "combineCalendars sortSlice h cal1 cal2 = Inl NilDereference"
proof (cases "cal1 < length h")
  case False
  then show ?thesis
    by (simp add: combineCalendars_def NewCalendar_def EventsOfArgument_def)
next
  case True
  with assms have "\<not> cal2 < length h" by simp
  with True show ?thesis
    by (simp add: combineCalendars_def NewCalendar_def EventsOfArgument_def Events_def
        deref_def nth_append split: sum.splits)
qed

section \<open>Properties of the fan-in\<close>

lemma upd_split:
  assumes "i < length fs"
  shows "\<exists>pre post. fs = pre @ fs ! i # post \<and> fs[i := y] = pre @ y # post"
proof -
  have "fs = take i fs @ fs ! i # drop (Suc i) fs" using assms by (simp add: id_take_nth_drop)
  moreover have "fs[i := y] = take i fs @ y # drop (Suc i) fs"
    using assms by (simp add: upd_conv_take_nth_drop)
  ultimately show ?thesis by blast
qed

lemma drop_Cons_launch:
  assumes "drop n urls = url # rest"
  shows "n < length urls \<and> take (Suc n) urls = take n urls @ [url] \<and> rest = drop (Suc n) urls"
proof -
  from assms have n: "n < length urls" by (cases "n < length urls") auto
  then have "drop n urls = urls ! n # drop (Suc n) urls" by (simp add: Cons_nth_drop_Suc)
  with assms have "url = urls ! n" "rest = drop (Suc n) urls" by auto
  with n show ?thesis by (simp add: take_Suc_conv_app_nth)
qed

lemma live_simps [simp]:
  "live [] = 0" "live (fs @ gs) = live fs + live gs"
  "live (f # fs) = (if f = Finished then 0 else 1) + live fs"
  by (simp_all add: live_def)

lemma owed_simps [simp]:
  "owed [] = {#}" "owed (fs @ gs) = owed fs + owed gs"
  "owed (f # fs) = mset (pending_of f) + owed fs"
  by (simp_all add: owed_def)

lemma live_update:
  assumes "i < length fs"
  shows "live (fs[i := y]) + (if fs ! i = Finished then 0 else 1)
       = live fs + (if y = Finished then 0 else 1)"
proof -
  from upd_split [OF assms, of y] obtain pre post where
    f: "fs = pre @ fs ! i # post" and u: "fs[i := y] = pre @ y # post" by blast
  have "live fs = live (pre @ fs ! i # post)" using f by simp
  then have a: "live fs = live pre + (if fs ! i = Finished then 0 else 1) + live post"
    by simp
  have b: "live (fs[i := y]) = live pre + (if y = Finished then 0 else 1) + live post"
    unfolding u by simp
  from a b show ?thesis by simp
qed

lemma owed_update:
  assumes "i < length fs"
  shows "owed (fs[i := y]) + mset (pending_of (fs ! i)) = owed fs + mset (pending_of y)"
proof -
  from upd_split [OF assms, of y] obtain pre post where
    f: "fs = pre @ fs ! i # post" and u: "fs[i := y] = pre @ y # post" by blast
  have "owed fs = owed (pre @ fs ! i # post)" using f by simp
  then have a: "owed fs = owed pre + mset (pending_of (fs ! i)) + owed post"
    by simp
  have b: "owed (fs[i := y]) = owed pre + mset (pending_of y) + owed post"
    unfolding u by simp
  from a b show ?thesis by simp
qed

lemma live_0: "live fs = 0 \<longleftrightarrow> (\<forall>f\<in>set fs. f = Finished)"
  by (induction fs) auto

lemma owed_Finished: "\<forall>f\<in>set fs. f = Finished \<Longrightarrow> owed fs = {#}"
  by (induction fs) auto

lemma agg_invD:
  assumes "agg_inv cfg get urls s"
  shows "\<not> panicked s"
    and "length (fetchers s) \<le> length urls"
    and "toLaunch s = drop (length (fetchers s)) urls"
    and "wg s = live (fetchers s)"
    and "pc s = Launching \<longleftrightarrow> closer s = NotStarted"
    and "pc s \<noteq> Launching \<Longrightarrow> toLaunch s = []"
    and "closes s = (if closer s = Closed then 1 else 0)"
    and "closer s = Closed \<Longrightarrow> wg s = 0"
    and "pc s = Footing \<or> pc s = Ended \<Longrightarrow> closer s = Closed \<or> clientGone s"
    and "pc s = Launching \<or> pc s = Heading \<Longrightarrow> received s = []"
    and "mset (received s) + owed (fetchers s) =
       mset (concat (map (FetchICS get) (take (length (fetchers s)) urls)))"
    and "written s =
       (if pc s = Launching \<or> pc s = Heading then [] else [Header cfg]) @ received s @
       (if pc s = Ended then [Footer cfg] else [])"
    and "clientGone s \<Longrightarrow> pc s = Footing \<or> pc s = Ended"
  using assms unfolding agg_inv_def by blast+

lemma agg_invI:
  assumes "\<not> panicked s"
    and "length (fetchers s) \<le> length urls"
    and "toLaunch s = drop (length (fetchers s)) urls"
    and "wg s = live (fetchers s)"
    and "pc s = Launching \<longleftrightarrow> closer s = NotStarted"
    and "pc s \<noteq> Launching \<longrightarrow> toLaunch s = []"
    and "closes s = (if closer s = Closed then 1 else 0)"
    and "closer s = Closed \<longrightarrow> wg s = 0"
    and "pc s = Footing \<or> pc s = Ended \<longrightarrow> closer s = Closed \<or> clientGone s"
    and "pc s = Launching \<or> pc s = Heading \<longrightarrow> received s = []"
    and "mset (received s) + owed (fetchers s) =
       mset (concat (map (FetchICS get) (take (length (fetchers s)) urls)))"
    and "written s =
       (if pc s = Launching \<or> pc s = Heading then [] else [Header cfg]) @ received s @
       (if pc s = Ended then [Footer cfg] else [])"
    and "clientGone s \<longrightarrow> pc s = Footing \<or> pc s = Ended"
  shows "agg_inv cfg get urls s"
  using assms unfolding agg_inv_def by blast

lemma inv_Launch:
  assumes "agg_inv cfg get urls s" "exec cfg get Launch s = Some s'"
  shows "agg_inv cfg get urls s'"
proof -
  note I = agg_invD [OF assms(1)]
  from assms(2) obtain url rest where
    l: "toLaunch s = url # rest" "pc s = Launching"
    and s': "s' = s\<lparr>toLaunch := rest, wg := wg s + 1,
                            fetchers := fetchers s @ [Running (FetchICS get url)]\<rparr>"
    by (auto simp: exec_def split: if_splits list.splits)
  from I(3) l(1) have "drop (length (fetchers s)) urls = url # rest" by simp
  note d = drop_Cons_launch [OF this]
  show ?thesis
  proof (rule agg_invI)
    show "\<not> panicked s'" using I(1) by (simp add: s')
    show "length (fetchers s') \<le> length urls" using d by (simp add: s')
    show "toLaunch s' = drop (length (fetchers s')) urls" using d by (simp add: s')
    show "wg s' = live (fetchers s')" using I(4) by (simp add: s')
    show "pc s' = Launching \<longleftrightarrow> closer s' = NotStarted" using I(5) by (simp add: s')
    show "pc s' \<noteq> Launching \<longrightarrow> toLaunch s' = []" using l(2) by (simp add: s')
    show "closes s' = (if closer s' = Closed then 1 else 0)" using I(7) by (simp add: s')
    show "closer s' = Closed \<longrightarrow> wg s' = 0" using I(5) l(2) by (simp add: s')
    show "pc s' = Footing \<or> pc s' = Ended \<longrightarrow> closer s' = Closed \<or> clientGone s'" using l(2) by (simp add: s')
    show "pc s' = Launching \<or> pc s' = Heading \<longrightarrow> received s' = []"
      using I(10) l(2) by (simp add: s')
    show "mset (received s') + owed (fetchers s') =
       mset (concat (map (FetchICS get) (take (length (fetchers s')) urls)))"
      using I(11) d by (simp add: s')
    show "written s' =
       (if pc s' = Launching \<or> pc s' = Heading then [] else [Header cfg]) @ received s' @
       (if pc s' = Ended then [Footer cfg] else [])"
      using I(12) by (simp add: s')
    show "clientGone s' \<longrightarrow> pc s' = Footing \<or> pc s' = Ended"
      using I(13) I(5) I(9) l by (auto simp: s')
  qed
qed

lemma inv_StartCloser:
  assumes "agg_inv cfg get urls s" "exec cfg get StartCloser s = Some s'"
  shows "agg_inv cfg get urls s'"
proof -
  note I = agg_invD [OF assms(1)]
  from assms(2) have l: "toLaunch s = []" "pc s = Launching"
    and s': "s' = s\<lparr>pc := Heading, closer := Waiting\<rparr>"
    by (auto simp: exec_def split: if_splits)
  show ?thesis
  proof (rule agg_invI)
    show "\<not> panicked s'" using I(1) by (simp add: s')
    show "length (fetchers s') \<le> length urls" using I(2) by (simp add: s')
    show "toLaunch s' = drop (length (fetchers s')) urls" using I(3) by (simp add: s')
    show "wg s' = live (fetchers s')" using I(4) by (simp add: s')
    show "pc s' = Launching \<longleftrightarrow> closer s' = NotStarted" by (simp add: s')
    show "pc s' \<noteq> Launching \<longrightarrow> toLaunch s' = []" using l(1) by (simp add: s')
    show "closes s' = (if closer s' = Closed then 1 else 0)" using I(5,7) l(2) by (simp add: s')
    show "closer s' = Closed \<longrightarrow> wg s' = 0" by (simp add: s')
    show "pc s' = Footing \<or> pc s' = Ended \<longrightarrow> closer s' = Closed \<or> clientGone s'" using I(9) by (auto simp: s')
    show "pc s' = Launching \<or> pc s' = Heading \<longrightarrow> received s' = []"
      using I(10) l(2) by (simp add: s')
    show "mset (received s') + owed (fetchers s') =
       mset (concat (map (FetchICS get) (take (length (fetchers s')) urls)))"
      using I(11) by (simp add: s')
    show "written s' =
       (if pc s' = Launching \<or> pc s' = Heading then [] else [Header cfg]) @ received s' @
       (if pc s' = Ended then [Footer cfg] else [])"
      using I(12) l(2) by (simp add: s')
    show "clientGone s' \<longrightarrow> pc s' = Footing \<or> pc s' = Ended"
      using I(13) I(5) I(9) l by (auto simp: s')
  qed
qed

lemma inv_WriteHeader:
  assumes "agg_inv cfg get urls s" "exec cfg get WriteHeader s = Some s'"
  shows "agg_inv cfg get urls s'"
proof -
  note I = agg_invD [OF assms(1)]
  from assms(2) have l: "pc s = Heading"
    and s': "s' = s\<lparr>pc := Streaming, written := written s @ [Header cfg]\<rparr>"
    by (auto simp: exec_def split: if_splits)
  show ?thesis
  proof (rule agg_invI)
    show "\<not> panicked s'" using I(1) by (simp add: s')
    show "length (fetchers s') \<le> length urls" using I(2) by (simp add: s')
    show "toLaunch s' = drop (length (fetchers s')) urls" using I(3) by (simp add: s')
    show "wg s' = live (fetchers s')" using I(4) by (simp add: s')
    show "pc s' = Launching \<longleftrightarrow> closer s' = NotStarted" using I(5) l by (simp add: s')
    show "pc s' \<noteq> Launching \<longrightarrow> toLaunch s' = []" using I(6) l by (simp add: s')
    show "closes s' = (if closer s' = Closed then 1 else 0)" using I(7) by (simp add: s')
    show "closer s' = Closed \<longrightarrow> wg s' = 0" using I(8) by (simp add: s')
    show "pc s' = Footing \<or> pc s' = Ended \<longrightarrow> closer s' = Closed \<or> clientGone s'" using I(9) by (auto simp: s')
    show "pc s' = Launching \<or> pc s' = Heading \<longrightarrow> received s' = []" by (simp add: s')
    show "mset (received s') + owed (fetchers s') =
       mset (concat (map (FetchICS get) (take (length (fetchers s')) urls)))"
      using I(11) by (simp add: s')
    show "written s' =
       (if pc s' = Launching \<or> pc s' = Heading then [] else [Header cfg]) @ received s' @
       (if pc s' = Ended then [Footer cfg] else [])"
      using I(10,12) l by (simp add: s')
    show "clientGone s' \<longrightarrow> pc s' = Footing \<or> pc s' = Ended"
      using I(13) I(5) I(9) l by (auto simp: s')
  qed
qed

lemma inv_EndStream:
  assumes "agg_inv cfg get urls s" "exec cfg get EndStream s = Some s'"
  shows "agg_inv cfg get urls s'"
proof -
  note I = agg_invD [OF assms(1)]
  from assms(2) have l: "pc s = Streaming" "0 < closes s"
    and s': "s' = s\<lparr>pc := Footing\<rparr>"
    by (auto simp: exec_def split: if_splits)
  from I(7) l(2) have c: "closer s = Closed" by (simp split: if_splits)
  show ?thesis
  proof (rule agg_invI)
    show "\<not> panicked s'" using I(1) by (simp add: s')
    show "length (fetchers s') \<le> length urls" using I(2) by (simp add: s')
    show "toLaunch s' = drop (length (fetchers s')) urls" using I(3) by (simp add: s')
    show "wg s' = live (fetchers s')" using I(4) by (simp add: s')
    show "pc s' = Launching \<longleftrightarrow> closer s' = NotStarted" using c by (simp add: s')
    show "pc s' \<noteq> Launching \<longrightarrow> toLaunch s' = []" using I(6) l by (simp add: s')
    show "closes s' = (if closer s' = Closed then 1 else 0)" using I(7) by (simp add: s')
    show "closer s' = Closed \<longrightarrow> wg s' = 0" using I(8) by (simp add: s')
    show "pc s' = Footing \<or> pc s' = Ended \<longrightarrow> closer s' = Closed \<or> clientGone s'" using c by (simp add: s')
    show "pc s' = Launching \<or> pc s' = Heading \<longrightarrow> received s' = []" by (simp add: s')
    show "mset (received s') + owed (fetchers s') =
       mset (concat (map (FetchICS get) (take (length (fetchers s')) urls)))"
      using I(11) by (simp add: s')
    show "written s' =
       (if pc s' = Launching \<or> pc s' = Heading then [] else [Header cfg]) @ received s' @
       (if pc s' = Ended then [Footer cfg] else [])"
      using I(12) l by (simp add: s')
    show "clientGone s' \<longrightarrow> pc s' = Footing \<or> pc s' = Ended"
      using I(13) I(5) I(9) l by (auto simp: s')
  qed
qed

lemma inv_WriteFooter:
  assumes "agg_inv cfg get urls s" "exec cfg get WriteFooter s = Some s'"
  shows "agg_inv cfg get urls s'"
proof -
  note I = agg_invD [OF assms(1)]
  from assms(2) have l: "pc s = Footing"
    and s': "s' = s\<lparr>pc := Ended, written := written s @ [Footer cfg]\<rparr>"
    by (auto simp: exec_def split: if_splits)
  from I(5) l have c: "closer s \<noteq> NotStarted" by simp
  show ?thesis
  proof (rule agg_invI)
    show "\<not> panicked s'" using I(1) by (simp add: s')
    show "length (fetchers s') \<le> length urls" using I(2) by (simp add: s')
    show "toLaunch s' = drop (length (fetchers s')) urls" using I(3) by (simp add: s')
    show "wg s' = live (fetchers s')" using I(4) by (simp add: s')
    show "pc s' = Launching \<longleftrightarrow> closer s' = NotStarted" using c by (simp add: s')
    show "pc s' \<noteq> Launching \<longrightarrow> toLaunch s' = []" using I(6) l by (simp add: s')
    show "closes s' = (if closer s' = Closed then 1 else 0)" using I(7) by (simp add: s')
    show "closer s' = Closed \<longrightarrow> wg s' = 0" using I(8) by (simp add: s')
    show "pc s' = Footing \<or> pc s' = Ended \<longrightarrow> closer s' = Closed \<or> clientGone s'"
      using I(9) l by (simp add: s')
    show "pc s' = Launching \<or> pc s' = Heading \<longrightarrow> received s' = []" by (simp add: s')
    show "mset (received s') + owed (fetchers s') =
       mset (concat (map (FetchICS get) (take (length (fetchers s')) urls)))"
      using I(11) by (simp add: s')
    show "written s' =
       (if pc s' = Launching \<or> pc s' = Heading then [] else [Header cfg]) @ received s' @
       (if pc s' = Ended then [Footer cfg] else [])"
      using I(12) l by (simp add: s')
    show "clientGone s' \<longrightarrow> pc s' = Footing \<or> pc s' = Ended"
      using I(13) I(5) I(9) l by (auto simp: s')
  qed
qed

lemma inv_Close:
  assumes "agg_inv cfg get urls s" "exec cfg get Close s = Some s'"
  shows "agg_inv cfg get urls s'"
proof -
  note I = agg_invD [OF assms(1)]
  from assms(2) have l: "closer s = Waiting" "wg s = 0"
    and s': "s' = s\<lparr>closer := Closed, closes := closes s + 1\<rparr>"
    by (auto simp: exec_def split: if_splits)
  show ?thesis
  proof (rule agg_invI)
    show "\<not> panicked s'" using I(1) by (simp add: s')
    show "length (fetchers s') \<le> length urls" using I(2) by (simp add: s')
    show "toLaunch s' = drop (length (fetchers s')) urls" using I(3) by (simp add: s')
    show "wg s' = live (fetchers s')" using I(4) by (simp add: s')
    show "pc s' = Launching \<longleftrightarrow> closer s' = NotStarted" using I(5) l by (simp add: s')
    show "pc s' \<noteq> Launching \<longrightarrow> toLaunch s' = []" using I(6) by (simp add: s')
    show "closes s' = (if closer s' = Closed then 1 else 0)" using I(7) l by (simp add: s')
    show "closer s' = Closed \<longrightarrow> wg s' = 0" using l by (simp add: s')
    show "pc s' = Footing \<or> pc s' = Ended \<longrightarrow> closer s' = Closed \<or> clientGone s'" using I(9) by (auto simp: s')
    show "pc s' = Launching \<or> pc s' = Heading \<longrightarrow> received s' = []"
      using I(10) by (simp add: s')
    show "mset (received s') + owed (fetchers s') =
       mset (concat (map (FetchICS get) (take (length (fetchers s')) urls)))"
      using I(11) by (simp add: s')
    show "written s' =
       (if pc s' = Launching \<or> pc s' = Heading then [] else [Header cfg]) @ received s' @
       (if pc s' = Ended then [Footer cfg] else [])"
      using I(12) by (simp add: s')
    show "clientGone s' \<longrightarrow> pc s' = Footing \<or> pc s' = Ended"
      using I(13) I(5) I(9) l by (auto simp: s')
  qed
qed

lemma inv_fetcher_update:
  assumes "agg_inv cfg get urls s" "i < length (fetchers s)"
    and l: "live ((fetchers s)[i := f]) + k = live (fetchers s)" 
    and w: "k \<le> wg s"
    and o: "owed ((fetchers s)[i := f]) + mset vs = owed (fetchers s)"
    and r: "vs \<noteq> [] \<longrightarrow> pc s = Streaming \<and> closer s \<noteq> Closed"
    and s': "s' = s\<lparr>fetchers := (fetchers s)[i := f], wg := wg s - k,
                   received := received s @ vs, written := written s @ vs\<rparr>"
  shows "agg_inv cfg get urls s'"
proof -
  note I = agg_invD [OF assms(1)]
  show ?thesis
  proof (rule agg_invI)
    show "\<not> panicked s'" using I(1) by (simp add: s')
    show "length (fetchers s') \<le> length urls" using I(2) by (simp add: s')
    show "toLaunch s' = drop (length (fetchers s')) urls" using I(3) by (simp add: s')
    show "wg s' = live (fetchers s')" using I(4) l w by (simp add: s')
    show "pc s' = Launching \<longleftrightarrow> closer s' = NotStarted" using I(5) by (simp add: s')
    show "pc s' \<noteq> Launching \<longrightarrow> toLaunch s' = []" using I(6) by (simp add: s')
    show "closes s' = (if closer s' = Closed then 1 else 0)" using I(7) by (simp add: s')
    show "closer s' = Closed \<longrightarrow> wg s' = 0" using I(8) by (simp add: s')
    show "pc s' = Footing \<or> pc s' = Ended \<longrightarrow> closer s' = Closed \<or> clientGone s'" using I(9) by (simp add: s')
    show "pc s' = Launching \<or> pc s' = Heading \<longrightarrow> received s' = []"
      using I(10) r by (auto simp: s')
    have "mset (received s @ vs) + owed ((fetchers s)[i := f])
        = mset (received s) + (owed ((fetchers s)[i := f]) + mset vs)" by simp
    also have "\<dots> = mset (received s) + owed (fetchers s)" by (simp only: o)
    finally show "mset (received s') + owed (fetchers s') =
       mset (concat (map (FetchICS get) (take (length (fetchers s')) urls)))"
      using I(11) by (simp add: s')
    show "written s' =
       (if pc s' = Launching \<or> pc s' = Heading then [] else [Header cfg]) @ received s' @
       (if pc s' = Ended then [Footer cfg] else [])"
    proof (cases "vs = []")
      case True with I(12) show ?thesis by (simp add: s')
    next
      case False with r I(12) show ?thesis by (simp add: s')
    qed
    show "clientGone s' \<longrightarrow> pc s' = Footing \<or> pc s' = Ended"
      using I(13) I(5) I(9) l by (auto simp: s')
  qed
qed

lemma inv_Deliver:
  assumes "agg_inv cfg get urls s" "exec cfg get (Deliver i) s = Some s'"
  shows "agg_inv cfg get urls s'"
proof -
  note I = agg_invD [OF assms(1)]
  from assms(2) obtain v vs where
    d: "pc s = Streaming" "closes s = 0" "i < length (fetchers s)"
      "fetchers s ! i = Running (v # vs)"
    and s': "s' = s\<lparr>fetchers := (fetchers s)[i := Running vs],
                             received := received s @ [v], written := written s @ [v]\<rparr>"
    by (auto simp: exec_def split: if_splits fetcher.splits list.splits)
  from I(7) d(2) have c: "closer s \<noteq> Closed" by (simp split: if_splits)
  show ?thesis
  proof (rule inv_fetcher_update [OF assms(1) d(3), where k = 0 and vs = "[v]"])
    show "live ((fetchers s)[i := Running vs]) + 0 = live (fetchers s)"
      using live_update [OF d(3), of "Running vs"] d(4) by simp
    show "owed ((fetchers s)[i := Running vs]) + mset [v] = owed (fetchers s)"
      using owed_update [OF d(3), of "Running vs"] d(4) by simp
    show "[v] \<noteq> [] \<longrightarrow> pc s = Streaming \<and> closer s \<noteq> Closed" using d(1) c by simp
    show "s' = s\<lparr>fetchers := (fetchers s)[i := Running vs], wg := wg s - 0,
                   received := received s @ [v], written := written s @ [v]\<rparr>"
      by (simp add: s')
  qed simp
qed

lemma inv_Return:
  assumes "agg_inv cfg get urls s" "exec cfg get (Return i) s = Some s'"
  shows "agg_inv cfg get urls s'"
proof -
  from assms(2) have
    d: "i < length (fetchers s)" "fetchers s ! i = Running []"
    and s': "s' = s\<lparr>fetchers := (fetchers s)[i := Exited]\<rparr>"
    by (auto simp: exec_def split: if_splits)
  show ?thesis
  proof (rule inv_fetcher_update [OF assms(1) d(1), where k = 0 and vs = "[]"])
    show "live ((fetchers s)[i := Exited]) + 0 = live (fetchers s)"
      using live_update [OF d(1), of Exited] d(2) by simp
    show "owed ((fetchers s)[i := Exited]) + mset [] = owed (fetchers s)"
      using owed_update [OF d(1), of Exited] d(2) by simp
    show "s' = s\<lparr>fetchers := (fetchers s)[i := Exited], wg := wg s - 0,
                   received := received s @ [], written := written s @ []\<rparr>"
      by (simp add: s')
  qed simp_all
qed

lemma inv_Done:
  assumes "agg_inv cfg get urls s" "exec cfg get (Done i) s = Some s'"
  shows "agg_inv cfg get urls s'"
proof -
  note I = agg_invD [OF assms(1)]
  from assms(2) have
    d: "i < length (fetchers s)" "fetchers s ! i = Exited"
    by (auto simp: exec_def split: if_splits)
  have l: "live ((fetchers s)[i := Finished]) + 1 = live (fetchers s)"
    using live_update [OF d(1), of Finished] d(2) by simp
  with I(4) have w: "1 \<le> wg s" by simp
  with assms(2) d I(1) have
    s': "s' = s\<lparr>fetchers := (fetchers s)[i := Finished], wg := wg s - 1\<rparr>"
    by (simp add: exec_def)
  show ?thesis
  proof (rule inv_fetcher_update [OF assms(1) d(1) l w, where vs = "[]"])
    show "owed ((fetchers s)[i := Finished]) + mset [] = owed (fetchers s)"
      using owed_update [OF d(1), of Finished] d(2) by simp
    show "s' = s\<lparr>fetchers := (fetchers s)[i := Finished], wg := wg s - 1,
                   received := received s @ [], written := written s @ []\<rparr>"
      by (simp add: s')
  qed simp
qed

lemma inv_Stall:
  assumes "agg_inv cfg get urls s" "exec cfg get (Stall i) s = Some s'"
  shows "agg_inv cfg get urls s'"
proof -
  from assms(2) obtain vs where
    d: "i < length (fetchers s)" "fetchers s ! i = Running vs"
    and s': "s' = s\<lparr>fetchers := (fetchers s)[i := Stalled vs]\<rparr>"
    by (auto simp: exec_def split: if_splits fetcher.splits)
  show ?thesis
  proof (rule inv_fetcher_update [OF assms(1) d(1), where k = 0 and vs = "[]"])
    show "live ((fetchers s)[i := Stalled vs]) + 0 = live (fetchers s)"
      using live_update [OF d(1), of "Stalled vs"] d(2) by simp
    show "owed ((fetchers s)[i := Stalled vs]) + mset [] = owed (fetchers s)"
      using owed_update [OF d(1), of "Stalled vs"] d(2) by simp
    show "s' = s\<lparr>fetchers := (fetchers s)[i := Stalled vs], wg := wg s - 0,
                   received := received s @ [], written := written s @ []\<rparr>"
      by (simp add: s')
  qed simp_all
qed

lemma inv_ClientGone:
  assumes "agg_inv cfg get urls s" "exec cfg get ClientGone s = Some s'"
  shows "agg_inv cfg get urls s'"
proof -
  note I = agg_invD [OF assms(1)]
  from assms(2) have l: "pc s = Streaming"
    and s': "s' = s\<lparr>pc := Footing, clientGone := True\<rparr>"
    by (auto simp: exec_def split: if_splits)
  show ?thesis
  proof (rule agg_invI)
    show "\<not> panicked s'" using I(1) by (simp add: s')
    show "length (fetchers s') \<le> length urls" using I(2) by (simp add: s')
    show "toLaunch s' = drop (length (fetchers s')) urls" using I(3) by (simp add: s')
    show "wg s' = live (fetchers s')" using I(4) by (simp add: s')
    show "pc s' = Launching \<longleftrightarrow> closer s' = NotStarted" using I(5) l by (simp add: s')
    show "pc s' \<noteq> Launching \<longrightarrow> toLaunch s' = []" using I(6) l by (simp add: s')
    show "closes s' = (if closer s' = Closed then 1 else 0)" using I(7) by (simp add: s')
    show "closer s' = Closed \<longrightarrow> wg s' = 0" using I(8) by (simp add: s')
    show "pc s' = Footing \<or> pc s' = Ended \<longrightarrow> closer s' = Closed \<or> clientGone s'"
      by (simp add: s')
    show "pc s' = Launching \<or> pc s' = Heading \<longrightarrow> received s' = []" by (simp add: s')
    show "mset (received s') + owed (fetchers s') =
       mset (concat (map (FetchICS get) (take (length (fetchers s')) urls)))"
      using I(11) by (simp add: s')
    show "written s' =
       (if pc s' = Launching \<or> pc s' = Heading then [] else [Header cfg]) @ received s' @
       (if pc s' = Ended then [Footer cfg] else [])"
      using I(12) l by (simp add: s')
    show "clientGone s' \<longrightarrow> pc s' = Footing \<or> pc s' = Ended" by (simp add: s')
  qed
qed

lemma closed_all_Finished:
  assumes "agg_inv cfg get urls s" "0 < closes s"
  shows "\<forall>f\<in>set (fetchers s). f = Finished"
proof -
  note I = agg_invD [OF assms(1)]
  from I(7) assms(2) have "closer s = Closed" by (simp split: if_splits)
  with I(8) I(4) have "live (fetchers s) = 0" by simp
  then show ?thesis by (simp add: live_0)
qed

lemma inv_SendOnClosed:
  assumes "agg_inv cfg get urls s"
  shows "exec cfg get (SendOnClosed i) s = None"
proof (cases "0 < closes s \<and> i < length (fetchers s)")
  case False
  then show ?thesis by (auto simp: exec_def)
next
  case True
  with closed_all_Finished [OF assms] have "fetchers s ! i = Finished" by simp
  then show ?thesis by (simp add: exec_def)
qed

lemma exec_inv:
  assumes "agg_inv cfg get urls s" "exec cfg get a s = Some s'"
  shows "agg_inv cfg get urls s'"
proof (cases a)
  case Launch with assms show ?thesis by (simp add: inv_Launch)
next
  case StartCloser with assms show ?thesis by (simp add: inv_StartCloser)
next
  case WriteHeader with assms show ?thesis by (simp add: inv_WriteHeader)
next
  case (Deliver i) with assms show ?thesis by (simp add: inv_Deliver)
next
  case (SendOnClosed i) with assms inv_SendOnClosed [of cfg get urls s i] show ?thesis by simp
next
  case (Return i) with assms show ?thesis by (simp add: inv_Return)
next
  case (Done i) with assms show ?thesis by (simp add: inv_Done)
next
  case Close with assms show ?thesis by (simp add: inv_Close)
next
  case EndStream with assms show ?thesis by (simp add: inv_EndStream)
next
  case WriteFooter with assms show ?thesis by (simp add: inv_WriteFooter)
next
  case ClientGone with assms show ?thesis by (simp add: inv_ClientGone)
next
  case (Stall i) with assms show ?thesis by (simp add: inv_Stall)
qed

lemma start_inv: "agg_inv cfg get urls (start urls)"
  by (simp add: agg_inv_def start_def live_def owed_def)

lemma run_inv:
  "agg_inv cfg get urls s \<Longrightarrow> run cfg get sched s = Some t \<Longrightarrow> agg_inv cfg get urls t"
proof (induction sched arbitrary: s)
  case Nil then show ?case by simp
next
  case (Cons a sched)
  from Cons.prems(2) obtain s' where e: "exec cfg get a s = Some s'"
    and r: "run cfg get sched s' = Some t" by (auto split: option.splits)
  from exec_inv [OF Cons.prems(1) e] have "agg_inv cfg get urls s'" .
  from Cons.IH [OF this r] show ?case .
qed

lemma not_all_Finished:
  assumes "\<not> (\<forall>f\<in>set fs. f = Finished)"
  shows "\<exists>i<length fs. fs ! i \<noteq> Finished"
  using assms by (auto simp: in_set_conv_nth)

lemma progress:
  assumes "agg_inv cfg get urls s" "pc s \<noteq> Ended" "\<forall>f\<in>set (fetchers s). not_stalled f"
  shows "\<exists>a s'. cooperative a \<and> exec cfg get a s = Some s'"
proof -
  note I = agg_invD [OF assms(1)]
  have ex: "\<exists>a s'. cooperative a \<and> exec cfg get a s = Some s'"
    if "cooperative a" "\<exists>s'. exec cfg get a s = Some s'" for a
    using that by blast
  show ?thesis
  proof (cases "pc s")
    case Launching
    show ?thesis
    proof (cases "toLaunch s")
      case Nil
      with Launching I(1) have "\<exists>s'. exec cfg get StartCloser s = Some s'"
        by (simp add: exec_def)
      then show ?thesis by (intro ex [of StartCloser]) (simp_all add: cooperative_def)
    next
      case (Cons url rest)
      with Launching I(1) have "\<exists>s'. exec cfg get Launch s = Some s'"
        by (simp add: exec_def)
      then show ?thesis by (intro ex [of Launch]) (simp_all add: cooperative_def)
    qed
  next
    case Heading
    with I(1) have "\<exists>s'. exec cfg get WriteHeader s = Some s'" by (simp add: exec_def)
    then show ?thesis by (intro ex [of WriteHeader]) (simp_all add: cooperative_def)
  next
    case Streaming
    show ?thesis
    proof (cases "\<forall>f\<in>set (fetchers s). f = Finished")
      case True
      then have w: "wg s = 0" using I(4) by (simp add: live_0)
      from Streaming I(5) have "closer s \<noteq> NotStarted" by simp
      then consider "closer s = Waiting" | "closer s = Closed" by (cases "closer s") auto
      then show ?thesis
      proof cases
        case 1
        with w I(1) have "\<exists>s'. exec cfg get Close s = Some s'" by (simp add: exec_def)
        then show ?thesis by (intro ex [of Close]) (simp_all add: cooperative_def)
      next
        case 2
        with I(7) have "0 < closes s" by simp
        with Streaming I(1) have "\<exists>s'. exec cfg get EndStream s = Some s'"
          by (simp add: exec_def)
        then show ?thesis by (intro ex [of EndStream]) (simp_all add: cooperative_def)
      qed
    next
      case False
      from not_all_Finished [OF this] obtain i where
        i: "i < length (fetchers s)" "fetchers s ! i \<noteq> Finished" by blast
      from False closed_all_Finished [OF assms(1)] have c: "closes s = 0" by auto
      from i(1) assms(3) have ns: "not_stalled (fetchers s ! i)" by simp
      show ?thesis
      proof (cases "fetchers s ! i")
        case (Running vs)
        show ?thesis
        proof (cases vs)
          case Nil
          with Running i I(1) have "\<exists>s'. exec cfg get (Return i) s = Some s'"
            by (simp add: exec_def)
          then show ?thesis by (intro ex [of "Return i"]) (simp_all add: cooperative_def)
        next
          case (Cons v ws)
          with Running i I(1) c Streaming have "\<exists>s'. exec cfg get (Deliver i) s = Some s'"
            by (simp add: exec_def)
          then show ?thesis by (intro ex [of "Deliver i"]) (simp_all add: cooperative_def)
        qed
      next
        case (Stalled vs)
        with ns show ?thesis by simp
      next
        case Exited
        with i I(1) have "\<exists>s'. exec cfg get (Done i) s = Some s'"
          by (simp add: exec_def)
        then show ?thesis by (intro ex [of "Done i"]) (simp_all add: cooperative_def)
      next
        case Finished
        with i show ?thesis by simp
      qed
    qed
  next
    case Footing
    with I(1) have "\<exists>s'. exec cfg get WriteFooter s = Some s'" by (simp add: exec_def)
    then show ?thesis by (intro ex [of WriteFooter]) (simp_all add: cooperative_def)
  next
    case Ended
    with assms(2) show ?thesis by simp
  qed
qed

lemma steps_update:
  assumes "i < length fs"
  shows "sum_list (map fetcher_steps (fs[i := y])) + fetcher_steps (fs ! i)
       = sum_list (map fetcher_steps fs) + fetcher_steps y"
proof -
  from upd_split [OF assms, of y] obtain pre post where
    f: "fs = pre @ fs ! i # post" and u: "fs[i := y] = pre @ y # post" by blast
  have "sum_list (map fetcher_steps fs) = sum_list (map fetcher_steps (pre @ fs ! i # post))"
    using f by simp
  then have a: "sum_list (map fetcher_steps fs)
      = sum_list (map fetcher_steps pre) + fetcher_steps (fs ! i) + sum_list (map fetcher_steps post)"
    by simp
  have b: "sum_list (map fetcher_steps (fs[i := y]))
      = sum_list (map fetcher_steps pre) + fetcher_steps y + sum_list (map fetcher_steps post)"
    unfolding u by simp
  from a b show ?thesis by simp
qed

lemma exec_steps_left:
  assumes "exec cfg get a s = Some s'"
  shows "steps_left get s' < steps_left get s"
proof -
  from assms have np: "\<not> panicked s" by (auto simp: exec_def split: if_splits)
  show ?thesis
  proof (cases a)
    case Launch
    with assms np show ?thesis
      by (auto simp: exec_def steps_left_def split: if_splits list.splits)
  next
    case StartCloser
    with assms np show ?thesis
      by (auto simp: exec_def steps_left_def split: if_splits closer_pc.splits)
  next
    case WriteHeader
    with assms np show ?thesis
      by (auto simp: exec_def steps_left_def split: if_splits)
  next
    case (Deliver i)
    with assms np obtain v vs where d: "i < length (fetchers s)" "fetchers s ! i = Running (v # vs)"
      and s': "s' = s\<lparr>fetchers := (fetchers s)[i := Running vs],
                             received := received s @ [v], written := written s @ [v]\<rparr>"
      by (auto simp: exec_def split: if_splits fetcher.splits list.splits)
    from steps_update [OF d(1), of "Running vs"] d(2) np show ?thesis
      by (simp add: s' steps_left_def)
  next
    case (SendOnClosed i)
    with assms np have "s' = s\<lparr>panicked := True\<rparr>"
      by (auto simp: exec_def split: if_splits fetcher.splits list.splits)
    with np show ?thesis by (simp add: steps_left_def)
  next
    case (Return i)
    with assms np have d: "i < length (fetchers s)" "fetchers s ! i = Running []"
      and s': "s' = s\<lparr>fetchers := (fetchers s)[i := Exited]\<rparr>"
      by (auto simp: exec_def split: if_splits)
    from steps_update [OF d(1), of Exited] d(2) np show ?thesis
      by (simp add: s' steps_left_def)
  next
    case (Done i)
    with assms np have d: "i < length (fetchers s)" "fetchers s ! i = Exited"
      and s': "s' = s\<lparr>panicked := True\<rparr> \<or>
               s' = s\<lparr>fetchers := (fetchers s)[i := Finished], wg := wg s - 1\<rparr>"
      by (auto simp: exec_def split: if_splits)
    from steps_update [OF d(1), of Finished] d(2) np s' show ?thesis
      by (auto simp: steps_left_def)
  next
    case Close
    with assms np show ?thesis
      by (auto simp: exec_def steps_left_def split: if_splits)
  next
    case EndStream
    with assms np show ?thesis
      by (auto simp: exec_def steps_left_def split: if_splits)
  next
    case WriteFooter
    with assms np show ?thesis
      by (auto simp: exec_def steps_left_def split: if_splits)
  next
    case ClientGone
    with assms np show ?thesis
      by (auto simp: exec_def steps_left_def split: if_splits)
  next
    case (Stall i)
    with assms np obtain vs where d: "i < length (fetchers s)" "fetchers s ! i = Running vs"
      and s': "s' = s\<lparr>fetchers := (fetchers s)[i := Stalled vs]\<rparr>"
      by (auto simp: exec_def split: if_splits fetcher.splits)
    from steps_update [OF d(1), of "Stalled vs"] d(2) np show ?thesis
      by (simp add: s' steps_left_def)
  qed
qed

lemma run_steps_left:
  "run cfg get sched s = Some t \<Longrightarrow> length sched + steps_left get t \<le> steps_left get s"
proof (induction sched arbitrary: s)
  case Nil then show ?case by simp
next
  case (Cons a sched)
  from Cons.prems obtain s' where e: "exec cfg get a s = Some s'"
    and r: "run cfg get sched s' = Some t" by (auto split: option.splits)
  from Cons.IH [OF r] exec_steps_left [OF e] show ?case by simp
qed

lemma steps_left_pos: "\<not> panicked s \<Longrightarrow> 0 < steps_left get s"
  by (simp add: steps_left_def)

lemma has_value_iff: "has_value f \<longleftrightarrow> (\<exists>v vs. f = Running (v # vs))"
  by (cases f rule: has_value.cases) auto

lemma not_stalled_iff: "\<not> not_stalled f \<longleftrightarrow> (\<exists>vs. f = Stalled vs)"
  by (cases f) auto

lemma list_ex_update_other:
  assumes "list_ex P fs" "\<not> P (fs ! i)"
  shows "list_ex P (fs[i := y])"
proof -
  from assms(1) obtain j where j: "j < length fs" "P (fs ! j)"
    by (auto simp: list_ex_iff in_set_conv_nth)
  with assms(2) have "j \<noteq> i" by auto
  with j have "j < length (fs[i := y])" "P (fs[i := y] ! j)" by simp_all
  then show ?thesis unfolding list_ex_iff by (metis nth_mem)
qed

lemma list_ex_update_new:
  assumes "i < length fs" "P y"
  shows "list_ex P (fs[i := y])"
  using assms unfolding list_ex_iff by (metis set_update_memI)

lemma held_up_exec:
  assumes h: "held_up s" and e: "exec cfg get a s = Some s'"
  shows "held_up s'"
proof -
  from e have np: "\<not> panicked s" by (auto simp: exec_def split: if_splits)
  have keep: "held_up (s\<lparr>fetchers := (fetchers s)[i := y]\<rparr>)"
    if "i < length (fetchers s)" "not_stalled (fetchers s ! i)"
      "\<not> has_value (fetchers s ! i) \<or> \<not> not_stalled y \<or> pc s = Streaming" for i y
  proof (cases "list_ex (\<lambda>f. \<not> not_stalled f) (fetchers s)")
    case True
    from list_ex_update_other [OF True, of i y] that(2) show ?thesis
      by (simp add: held_up_def)
  next
    case False
    with h have p: "pc s = Footing \<or> pc s = Ended" and v: "list_ex has_value (fetchers s)"
      by (auto simp: held_up_def)
    from that(3) p consider "\<not> has_value (fetchers s ! i)" | "\<not> not_stalled y" by auto
    then show ?thesis
    proof cases
      case 1
      from list_ex_update_other [OF v 1, of y] p show ?thesis by (simp add: held_up_def)
    next
      case 2
      from list_ex_update_new [OF that(1), of "\<lambda>f. \<not> not_stalled f" y] 2
      show ?thesis by (simp add: held_up_def)
    qed
  qed
  show ?thesis
  proof (cases a)
    case Launch
    with e np obtain url rest where "pc s = Launching"
      and s': "s' = s\<lparr>toLaunch := rest, wg := wg s + 1,
                            fetchers := fetchers s @ [Running (FetchICS get url)]\<rparr>"
      by (auto simp: exec_def split: if_splits list.splits)
    with h show ?thesis by (auto simp: held_up_def)
  next
    case StartCloser
    with e np h show ?thesis by (auto simp: exec_def held_up_def split: if_splits)
  next
    case WriteHeader
    with e np h show ?thesis by (auto simp: exec_def held_up_def split: if_splits)
  next
    case (Deliver i)
    with e np obtain v vs where d: "pc s = Streaming" "i < length (fetchers s)"
        "fetchers s ! i = Running (v # vs)"
      and s': "s' = s\<lparr>fetchers := (fetchers s)[i := Running vs],
                             received := received s @ [v], written := written s @ [v]\<rparr>"
      by (auto simp: exec_def split: if_splits fetcher.splits list.splits)
    from keep [of i "Running vs"] d have "held_up (s\<lparr>fetchers := (fetchers s)[i := Running vs]\<rparr>)"
      by simp
    then show ?thesis by (simp add: s' held_up_def)
  next
    case (SendOnClosed i)
    with e np have "s' = s\<lparr>panicked := True\<rparr>"
      by (auto simp: exec_def split: if_splits fetcher.splits list.splits)
    with h show ?thesis by (simp add: held_up_def)
  next
    case (Return i)
    with e np have d: "i < length (fetchers s)" "fetchers s ! i = Running []"
      and s': "s' = s\<lparr>fetchers := (fetchers s)[i := Exited]\<rparr>"
      by (auto simp: exec_def split: if_splits)
    from keep [of i Exited] d show ?thesis by (simp add: s')
  next
    case (Done i)
    with e np have d: "i < length (fetchers s)" "fetchers s ! i = Exited"
      and s': "s' = s\<lparr>panicked := True\<rparr> \<or>
               s' = s\<lparr>fetchers := (fetchers s)[i := Finished], wg := wg s - 1\<rparr>"
      by (auto simp: exec_def split: if_splits)
    from keep [of i Finished] d have "held_up (s\<lparr>fetchers := (fetchers s)[i := Finished]\<rparr>)"
      by simp
    with s' h show ?thesis by (auto simp: held_up_def)
  next
    case Close
    with e np h show ?thesis by (auto simp: exec_def held_up_def split: if_splits)
  next
    case EndStream
    with e np h show ?thesis by (auto simp: exec_def held_up_def split: if_splits)
  next
    case ClientGone
    with e np h show ?thesis by (auto simp: exec_def held_up_def split: if_splits)
  next
    case WriteFooter
    with e np h show ?thesis by (auto simp: exec_def held_up_def split: if_splits)
  next
    case (Stall i)
    with e np obtain vs where d: "i < length (fetchers s)" "fetchers s ! i = Running vs"
      and s': "s' = s\<lparr>fetchers := (fetchers s)[i := Stalled vs]\<rparr>"
      by (auto simp: exec_def split: if_splits fetcher.splits)
    from keep [of i "Stalled vs"] d show ?thesis by (simp add: s')
  qed
qed

lemma held_up_run:
  "held_up s \<Longrightarrow> run cfg get sched s = Some t \<Longrightarrow> held_up t"
proof (induction sched arbitrary: s)
  case Nil then show ?case by simp
next
  case (Cons a sched)
  from Cons.prems(2) obtain s' where e: "exec cfg get a s = Some s'"
    and r: "run cfg get sched s' = Some t" by (auto split: option.splits)
  from Cons.IH [OF held_up_exec [OF Cons.prems(1) e] r] show ?case .
qed

lemma held_up_open:
  assumes "agg_inv cfg get urls s" "held_up s"
  shows "closes s = 0"
proof (rule ccontr)
  assume "closes s \<noteq> 0"
  then have "\<forall>f\<in>set (fetchers s). f = Finished"
    using closed_all_Finished [OF assms(1)] by simp
  then have "\<not> list_ex (\<lambda>f. \<not> not_stalled f) (fetchers s)" "\<not> list_ex has_value (fetchers s)"
    by (auto simp: list_ex_iff)
  with assms(2) show False by (simp add: held_up_def)
qed

lemma run_append:
  "run cfg get (xs @ ys) s = (case run cfg get xs s of None \<Rightarrow> None | Some s' \<Rightarrow> run cfg get ys s')"
  by (induction xs arbitrary: s) (auto split: option.splits)

section \<open>Claims about the streaming path\<close>

text \<open>
  Claim C1. For every response body, the values \<open>FetchICS\<close> sends are: first the units
  completed inside the loop, each of which starts with the begin-marker line
  (\<open>BEGIN:VEVENT\<close> with either terminator) and ends with the end-marker line
  (\<open>END:VEVENT\<close> with either terminator); then at most one more value. After a read error
  that value is the sentinel. After \<open>io.EOF\<close> it is sent only when the loop was left with
  \<open>inEvent\<close> set, and is then the partial buffer, which starts with the begin-marker line
  and does not end with the end-marker line.
\<close>

theorem FetchICS_event_units:
  assumes "get url = Response body e"
    and "scanLoop url (NewReader body e) initial = (ex, s)"
  shows "\<exists>units. (\<forall>u\<in>set units. startsWithBeginLine u \<and> endsWithEndLine u) \<and>
      FetchICS get url =
        units @ (if ex = Returned then [''Error reading response body: '' @ url]
                 else if inEvent s then [event s] else []) \<and>
      (ex = Broke \<and> inEvent s \<longrightarrow> startsWithBeginLine (event s) \<and> \<not> endsWithEndLine (event s))"
proof -
  obtain t where t: "acc_ok t" "chan_ok t"
    "scanLoop url (NewReader body e) initial =
       (if e = EOF then (Broke, t)
        else (Returned, send (''Error reading response body: '' @ url) t))"
    "FetchICS get url =
       eventChan t @ (if e \<noteq> EOF then [''Error reading response body: '' @ url]
                      else if inEvent t then [event t] else [])"
    using FetchICS_shape [of get url body e, OF assms(1)] by blast
  have units: "\<forall>u\<in>set (eventChan t). startsWithBeginLine u \<and> endsWithEndLine u"
    using t(2) by (simp add: chan_ok_def)
  show ?thesis
  proof (cases "e = EOF")
    case True
    with t(3) assms(2) have "ex = Broke" "s = t" by auto
    with units t(4) True acc_ok_partial [OF t(1)] show ?thesis
      by (intro exI[of _ "eventChan t"]) simp
  next
    case False
    with t(3) assms(2) have "ex = Returned" by auto
    with units t(4) False show ?thesis by (intro exI[of _ "eventChan t"]) simp
  qed
qed

theorem FetchICS_event_units_witness:
  "\<exists>units. (\<forall>u\<in>set units. startsWithBeginLine u \<and> endsWithEndLine u) \<and>
      FetchICS (\<lambda>_. Response (beginLF @ ''SUMMARY:a'' @ [LF] @ endLF @ beginCRLF) EOF) ''u'' =
        units @ [beginCRLF] \<and>
      startsWithBeginLine beginCRLF \<and> \<not> endsWithEndLine beginCRLF"
proof -
  let ?body = "beginLF @ ''SUMMARY:a'' @ [LF] @ endLF @ beginCRLF"
  let ?s = "\<lparr>event = beginCRLF, inEvent = True,
             eventChan = [beginLF @ ''SUMMARY:a'' @ [LF] @ endLF]\<rparr>"
  have h: "scanLoop ''u'' (NewReader ?body EOF) initial = (Broke, ?s)"
    by code_simp
  show ?thesis
    using FetchICS_event_units [of "\<lambda>_. Response ?body EOF" "''u''" ?body EOF Broke ?s] h by simp
qed

text \<open>
  Claim C4, as amended. While \<open>inEvent\<close> is set, a scanned line that is not a
  begin-marker is appended to the buffer; a begin-marker line replaces the buffer by that
  line, the state stays \<open>inEvent\<close> and nothing is sent. Only an end-marker line makes the
  loop send the buffer (with that line appended), clear it and reset \<open>inEvent\<close>.
\<close>

theorem handleLine_inEvent:
  assumes "inEvent s"
  shows "(line = beginCRLF \<or> line = beginLF \<longrightarrow>
            event (handleLine line s) = line \<and> inEvent (handleLine line s) \<and>
            eventChan (handleLine line s) = eventChan s) \<and>
         (line \<noteq> beginCRLF \<and> line \<noteq> beginLF \<and> line \<noteq> endCRLF \<and> line \<noteq> endLF \<longrightarrow>
            event (handleLine line s) = event s @ line \<and> inEvent (handleLine line s) \<and>
            eventChan (handleLine line s) = eventChan s) \<and>
         (line = endCRLF \<or> line = endLF \<longrightarrow>
            eventChan (handleLine line s) = eventChan s @ [event s @ line] \<and>
            event (handleLine line s) = [] \<and> \<not> inEvent (handleLine line s)) \<and>
         (eventChan (handleLine line s) \<noteq> eventChan s \<or> \<not> inEvent (handleLine line s)
            \<longrightarrow> line = endCRLF \<or> line = endLF)"
  using assms marker_distinct
  by (auto simp: handleLine_def send_def Let_def)

theorem handleLine_inEvent_witness:
  "event (handleLine (''SUMMARY:a'' @ [LF]) \<lparr>event = beginLF, inEvent = True, eventChan = []\<rparr>)
     = beginLF @ ''SUMMARY:a'' @ [LF] \<and>
   eventChan (handleLine endLF \<lparr>event = beginLF, inEvent = True, eventChan = []\<rparr>)
     = [beginLF @ endLF] \<and>
   event (handleLine beginCRLF \<lparr>event = beginLF, inEvent = True, eventChan = []\<rparr>)
     = beginCRLF"
  using handleLine_inEvent [of "\<lparr>event = beginLF, inEvent = True, eventChan = []\<rparr>" "''SUMMARY:a'' @ [LF]"]
    handleLine_inEvent [of "\<lparr>event = beginLF, inEvent = True, eventChan = []\<rparr>" endLF]
    handleLine_inEvent [of "\<lparr>event = beginLF, inEvent = True, eventChan = []\<rparr>" beginCRLF]
  by (simp add: beginCRLF_def beginLF_def endCRLF_def endLF_def)

text \<open>
  Claim C4 as stated fails: a begin-marker line read while \<open>inEvent\<close> is set is not
  appended to the buffer, it replaces the buffer. So the lines accumulated before it
  are in no unit that is sent.
\<close>

theorem handleLine_begin_counterexample:
  "inEvent \<lparr>event = beginLF @ ''SUMMARY:a'' @ [LF], inEvent = True, eventChan = []\<rparr> \<and>
   event (handleLine beginLF \<lparr>event = beginLF @ ''SUMMARY:a'' @ [LF], inEvent = True, eventChan = []\<rparr>)
     \<noteq> (beginLF @ ''SUMMARY:a'' @ [LF]) @ beginLF \<and>
   FetchICS (\<lambda>_. Response (beginLF @ ''SUMMARY:a'' @ [LF] @ beginLF @ ''SUMMARY:b'' @ [LF] @ endLF) EOF) ''u''
     = [beginLF @ ''SUMMARY:b'' @ [LF] @ endLF]"
  by code_simp

text \<open>
  Claim C5. When the loop is left at \<open>io.EOF\<close> with \<open>inEvent\<close> set, the buffer is not
  empty and is sent as one more unit after the completed ones. A body that is just a
  terminated begin-marker line gives exactly one unit, that line.
\<close>

theorem FetchICS_flush:
  "(get url = Response body EOF \<longrightarrow> scanLoop url (NewReader body EOF) initial = (ex, s) \<longrightarrow>
      inEvent s \<longrightarrow> event s \<noteq> [] \<and> FetchICS get url = eventChan s @ [event s]) \<and>
   FetchICS (\<lambda>_. Response beginLF EOF) url = [beginLF] \<and>
   FetchICS (\<lambda>_. Response beginCRLF EOF) url = [beginCRLF]"
proof -
  have "event s \<noteq> [] \<and> FetchICS get url = eventChan s @ [event s]"
    if g: "get url = Response body EOF"
      and sl: "scanLoop url (NewReader body EOF) initial = (ex, s)" and i: "inEvent s"
  proof -
    obtain t where t: "acc_ok t" "scanLoop url (NewReader body EOF) initial = (Broke, t)"
      "FetchICS get url = eventChan t @ (if inEvent t then [event t] else [])"
      using FetchICS_shape [of get url body EOF, OF g] by auto
    with sl have "s = t" by simp
    with t i acc_ok_partial [of s] show ?thesis by simp
  qed
  moreover have "FetchICS (\<lambda>_. Response l EOF) url = [l]" if "l = beginLF \<or> l = beginCRLF" for l
  proof -
    from that have l: "is_line l" "l \<noteq> []" using marker_lines marker_distinct by auto
    have "scanLoop url (NewReader (concat [l] @ []) EOF) initial = (Broke, feed initial [l])"
      by (subst scanLoop_lines) (use l in simp_all)
    moreover have "handleLine l initial = \<lparr>event = l, inEvent = True, eventChan = []\<rparr>"
      using that by (auto simp: handleLine_def initial_def)
    ultimately show ?thesis using l by (simp add: FetchICS_def send_def)
  qed
  ultimately show ?thesis by blast
qed

theorem FetchICS_flush_witness:
  "FetchICS (\<lambda>_. Response (beginLF @ endLF @ beginLF @ ''SUMMARY:b'' @ [LF]) EOF) ''u''
     = [beginLF @ endLF] @ [beginLF @ ''SUMMARY:b'' @ [LF]]"
proof -
  let ?body = "beginLF @ endLF @ beginLF @ ''SUMMARY:b'' @ [LF]"
  let ?s = "\<lparr>event = beginLF @ ''SUMMARY:b'' @ [LF], inEvent = True, eventChan = [beginLF @ endLF]\<rparr>"
  have h: "scanLoop ''u'' (NewReader ?body EOF) initial = (Broke, ?s)"
    by code_simp
  show ?thesis
    using FetchICS_flush [of "\<lambda>_. Response ?body EOF" "''u''" ?body Broke ?s] h by simp
qed

text \<open>
  Claim C7. When \<open>http.Get\<close> fails, \<open>FetchICS\<close> sends the one value
  \<open>"Error fetching URL: " + url\<close>. When reading the body fails, the last value it sends
  is \<open>"Error reading response body: " + url\<close>; everything sent before it is a completed
  event unit, so the sentinel is sent once and a partial buffer is not sent.
\<close>

theorem FetchICS_sentinel:
  "(get url = GetFailed \<longrightarrow> FetchICS get url = [''Error fetching URL: '' @ url]) \<and>
   (get url = Response body ReadFailure \<longrightarrow>
      (\<exists>units. FetchICS get url = units @ [''Error reading response body: '' @ url] \<and>
         ''Error reading response body: '' @ url \<notin> set units \<and>
         (\<forall>u\<in>set units. startsWithBeginLine u \<and> endsWithEndLine u)))"
proof -
  have "\<exists>units. FetchICS get url = units @ [''Error reading response body: '' @ url] \<and>
         ''Error reading response body: '' @ url \<notin> set units \<and>
         (\<forall>u\<in>set units. startsWithBeginLine u \<and> endsWithEndLine u)"
    if g: "get url = Response body ReadFailure"
  proof -
    obtain t where "chan_ok t"
      "FetchICS get url = eventChan t @ [''Error reading response body: '' @ url]"
      using FetchICS_shape [of get url body ReadFailure, OF g] by auto
    then obtain units where
      u: "\<forall>u\<in>set units. startsWithBeginLine u \<and> endsWithEndLine u"
        "FetchICS get url = units @ [''Error reading response body: '' @ url]"
      by (auto simp: chan_ok_def)
    with sentinel_not_unit [of url] show ?thesis by blast
  qed
  then show ?thesis by (auto simp: FetchICS_def)
qed

theorem FetchICS_sentinel_witness:
  "FetchICS (\<lambda>_. GetFailed) ''u'' = [''Error fetching URL: u''] \<and>
   (\<exists>units. FetchICS (\<lambda>_. Response (beginLF @ endLF @ beginLF) ReadFailure) ''u''
        = units @ [''Error reading response body: u''] \<and>
      ''Error reading response body: u'' \<notin> set units \<and>
      (\<forall>u\<in>set units. startsWithBeginLine u \<and> endsWithEndLine u))"
  using FetchICS_sentinel [of "\<lambda>_. GetFailed" "''u''"]
    FetchICS_sentinel [of "\<lambda>_. Response (beginLF @ endLF @ beginLF) ReadFailure" "''u''"
      "beginLF @ endLF @ beginLF"]
  by simp

text \<open>
  Claim C9. Bytes after the last line feed of a body never reach a unit: \<open>FetchICS\<close>
  sends the same values whether or not the body carries a final piece without line feed.
  So an end-marker without terminator at the end of the stream does not complete an event,
  and the partial unit flushed there does not contain it.
\<close>

theorem FetchICS_unterminated_tail:
  "LF \<notin> set tail \<Longrightarrow>
   FetchICS (\<lambda>_. Response (body @ tail) e) url = FetchICS (\<lambda>_. Response body e) url"
proof -
  assume t: "LF \<notin> set tail"
  obtain ls t0 where d: "body = concat ls @ t0" "\<forall>l\<in>set ls. is_line l" "LF \<notin> set t0"
    using body_decompose by blast
  from t d(3) have "LF \<notin> set (t0 @ tail)" by simp
  from scanLoop_lines [OF d(2) this] scanLoop_lines [OF d(2,3)] d(1)
  have "scanLoop url (NewReader (body @ tail) e) initial
      = scanLoop url (NewReader body e) initial" by simp
  then show ?thesis by (simp add: FetchICS_def)
qed

theorem FetchICS_unterminated_tail_witness:
  "FetchICS (\<lambda>_. Response ((beginLF @ ''SUMMARY:a'' @ [LF]) @ ''END:VEVENT'') EOF) ''u''
     = [beginLF @ ''SUMMARY:a'' @ [LF]]"
proof -
  have "FetchICS (\<lambda>_. Response (beginLF @ ''SUMMARY:a'' @ [LF]) EOF) ''u''
     = [beginLF @ ''SUMMARY:a'' @ [LF]]"
    by code_simp
  moreover have "LF \<notin> set ''END:VEVENT''" by (simp add: LF_def)
  ultimately show ?thesis
    using FetchICS_unterminated_tail [of "''END:VEVENT''" "beginLF @ ''SUMMARY:a'' @ [LF]" EOF "''u''"]
    by simp
qed




section \<open>Claims about the batch path\<close>

text \<open>
  Claim C3, as amended. Let \<open>cal1\<close> and \<open>cal2\<close> be calendars in the heap all of whose
  events carry a \<open>DTSTART\<close> property, with \<open>a\<close> and \<open>b\<close> events. With any sort that keeps
  the promise of \<open>sort.Slice\<close>, \<open>combineCalendars\<close> returns a new calendar that contains
  exactly these \<open>a + b\<close> events, in an order in which the raw \<open>DTSTART\<close> values, compared
  as strings, do not decrease. Nothing is said about the order of events with equal
  values.
\<close>

theorem combineCalendars_sorted:
  assumes "sortSlice_contract sortSlice" "cal1 < length h" "cal2 < length h"
    "\<forall>e\<in>set (eventsAt h cal1 @ eventsAt h cal2). hasDtStart e"
  shows "\<exists>c h'. combineCalendars sortSlice h cal1 cal2 = Inr (c, h') \<and>
      c \<noteq> cal1 \<and> c \<noteq> cal2 \<and>
      length (eventsAt h' c) = length (eventsAt h cal1) + length (eventsAt h cal2) \<and>
      mset (eventsAt h' c) = mset (eventsAt h cal1) + mset (eventsAt h cal2) \<and>
      sorted (map startTime (eventsAt h' c))"
proof -
  from combineCalendars_dated [OF assms] obtain new where
    n: "combineCalendars sortSlice h cal1 cal2 = Inr (length h, h @ [new])"
      "mset (eventsOf (Components new)) = mset (eventsAt h cal1 @ eventsAt h cal2)"
      "sorted (map startTime (eventsOf (Components new)))" by blast
  have e: "eventsAt (h @ [new]) (length h) = eventsOf (Components new)"
    by (simp add: eventsAt_def)
  from n(2) have "length (eventsOf (Components new)) = length (eventsAt h cal1 @ eventsAt h cal2)"
    by (rule mset_eq_length)
  with n e assms(2,3) show ?thesis by (intro exI[of _ "length h"] exI[of _ "h @ [new]"]) simp
qed

theorem combineCalendars_sorted_witness:
  "\<exists>c h'. combineCalendars insertionSort [mockColombianCalendar, mockCanadianCalendar] 0 1
        = Inr (c, h') \<and> c \<noteq> 0 \<and> c \<noteq> 1 \<and>
      length (eventsAt h' c) = 2 + 2 \<and>
      sorted (map startTime (eventsAt h' c))"
proof -
  have l: "length (eventsAt [mockColombianCalendar, mockCanadianCalendar] 0) = 2"
    "length (eventsAt [mockColombianCalendar, mockCanadianCalendar] 1) = 2"
    by (simp_all add: eventsAt_def mockColombianCalendar_def mockCanadianCalendar_def)
  show ?thesis
    using combineCalendars_sorted [OF insertionSort_contract _ _ mock_dated] l by auto
qed

text \<open>
  Claim C3 as stated fails in two ways. The sort is not stable. \<open>calendarOfSeven\<close> and
  \<open>calendarOfSix\<close> hold thirteen events with a \<open>DTSTART\<close> each, twelve of them with
  the same one. \<open>sort.Slice\<close> takes the fourth event as the pivot and swaps it with the
  first, and \<open>combineCalendars\<close> returns the events of the first calendar that start on
  that day in the order \<open>D\<close>, \<open>C\<close>, \<open>A\<close>, \<open>E\<close>, \<open>F\<close>, \<open>B\<close>, whatever the
  pseudo-random numbers are; the start times do not decrease in that result all the same.
  And not every pair of calendars has a result: with events that carry no \<open>DTSTART\<close>
  the first comparison of the sort panics.
\<close>

theorem combineCalendars_stable_counterexample:
  "\<forall>random.
   combineCalendars (Slice random) [calendarOfSeven, calendarOfSix] 0 1 =
     Inr (2, [calendarOfSeven, calendarOfSix,
        \<lparr>Components = [Event (mkEvent ''G'' ''20221231''),
                       Event (mkEvent ''D'' ''20230101''),
                       Event (mkEvent ''C'' ''20230101''),
                       Event (mkEvent ''A'' ''20230101''),
                       Event (mkEvent ''E'' ''20230101''),
                       Event (mkEvent ''F'' ''20230101''),
                       Event (mkEvent ''B'' ''20230101''),
                       Event (mkEvent ''H'' ''20230101''),
                       Event (mkEvent ''I'' ''20230101''),
                       Event (mkEvent ''J'' ''20230101''),
                       Event (mkEvent ''K'' ''20230101''),
                       Event (mkEvent ''L'' ''20230101''),
                       Event (mkEvent ''M'' ''20230101'')],
          CalendarProperties = [\<lparr>IANAToken = ''VERSION'', Value = ''2.0''\<rparr>]\<rparr>]) \<and>
   \<not> stableOrder
       (eventsAt [calendarOfSeven, calendarOfSix] 0 @ eventsAt [calendarOfSeven, calendarOfSix] 1)
       [mkEvent ''G'' ''20221231'', mkEvent ''D'' ''20230101'', mkEvent ''C'' ''20230101'',
        mkEvent ''A'' ''20230101'', mkEvent ''E'' ''20230101'', mkEvent ''F'' ''20230101'',
        mkEvent ''B'' ''20230101'', mkEvent ''H'' ''20230101'', mkEvent ''I'' ''20230101'',
        mkEvent ''J'' ''20230101'', mkEvent ''K'' ''20230101'', mkEvent ''L'' ''20230101'',
        mkEvent ''M'' ''20230101''] \<and>
   sorted (map startTime
       [mkEvent ''G'' ''20221231'', mkEvent ''D'' ''20230101'', mkEvent ''C'' ''20230101'',
        mkEvent ''A'' ''20230101'', mkEvent ''E'' ''20230101'', mkEvent ''F'' ''20230101'',
        mkEvent ''B'' ''20230101'', mkEvent ''H'' ''20230101'', mkEvent ''I'' ''20230101'',
        mkEvent ''J'' ''20230101'', mkEvent ''K'' ''20230101'', mkEvent ''L'' ''20230101'',
        mkEvent ''M'' ''20230101'']) \<and>
   combineCalendars (Slice random) [undatedCalendar, mockCanadianCalendar] 0 1
     = Inl NilDereference"
proof (intro allI conjI)
  fix random :: "int \<Rightarrow> nat \<Rightarrow> nat"
  show "combineCalendars (Slice random) [calendarOfSeven, calendarOfSix] 0 1 =
     Inr (2, [calendarOfSeven, calendarOfSix,
        \<lparr>Components = [Event (mkEvent ''G'' ''20221231''),
                       Event (mkEvent ''D'' ''20230101''),
                       Event (mkEvent ''C'' ''20230101''),
                       Event (mkEvent ''A'' ''20230101''),
                       Event (mkEvent ''E'' ''20230101''),
                       Event (mkEvent ''F'' ''20230101''),
                       Event (mkEvent ''B'' ''20230101''),
                       Event (mkEvent ''H'' ''20230101''),
                       Event (mkEvent ''I'' ''20230101''),
                       Event (mkEvent ''J'' ''20230101''),
                       Event (mkEvent ''K'' ''20230101''),
                       Event (mkEvent ''L'' ''20230101''),
                       Event (mkEvent ''M'' ''20230101'')],
          CalendarProperties = [\<lparr>IANAToken = ''VERSION'', Value = ''2.0''\<rparr>]\<rparr>])"
    by code_simp
  show "\<not> stableOrder
       (eventsAt [calendarOfSeven, calendarOfSix] 0 @ eventsAt [calendarOfSeven, calendarOfSix] 1)
       [mkEvent ''G'' ''20221231'', mkEvent ''D'' ''20230101'', mkEvent ''C'' ''20230101'',
        mkEvent ''A'' ''20230101'', mkEvent ''E'' ''20230101'', mkEvent ''F'' ''20230101'',
        mkEvent ''B'' ''20230101'', mkEvent ''H'' ''20230101'', mkEvent ''I'' ''20230101'',
        mkEvent ''J'' ''20230101'', mkEvent ''K'' ''20230101'', mkEvent ''L'' ''20230101'',
        mkEvent ''M'' ''20230101'']"
    by code_simp
  show "sorted (map startTime
       [mkEvent ''G'' ''20221231'', mkEvent ''D'' ''20230101'', mkEvent ''C'' ''20230101'',
        mkEvent ''A'' ''20230101'', mkEvent ''E'' ''20230101'', mkEvent ''F'' ''20230101'',
        mkEvent ''B'' ''20230101'', mkEvent ''H'' ''20230101'', mkEvent ''I'' ''20230101'',
        mkEvent ''J'' ''20230101'', mkEvent ''K'' ''20230101'', mkEvent ''L'' ''20230101'',
        mkEvent ''M'' ''20230101''])"
    by code_simp
  show "combineCalendars (Slice random) [undatedCalendar, mockCanadianCalendar] 0 1
     = Inl NilDereference"
    by code_simp
qed

text \<open>
  Claim C8. When \<open>combineCalendars\<close> returns, every calendar that was in the heap before
  the call is as it was, the two inputs among them with their components in their order;
  the result is a calendar that did not exist before.
\<close>

theorem combineCalendars_inputs_unchanged:
  assumes "combineCalendars sortSlice h cal1 cal2 = Inr (c, h')"
    and "cal1 < length h" "cal2 < length h"
  shows "h' ! cal1 = h ! cal1 \<and> h' ! cal2 = h ! cal2 \<and> c \<noteq> cal1 \<and> c \<noteq> cal2 \<and>
         length h' = Suc (length h) \<and> (\<forall>p<length h. h' ! p = h ! p)"
  using combineCalendars_frame [OF assms(1)] assms(2,3) by (auto simp: nth_append)

theorem combineCalendars_inputs_unchanged_witness:
  "[mockColombianCalendar, mockCanadianCalendar,
        \<lparr>Components = [Event (mkEvent ''Colombian New Year'' ''20230101''),
                       Event (mkEvent ''Canadian New Year'' ''20230101''),
                       Event (mkEvent ''Canada Day'' ''20230701''),
                       Event (mkEvent ''Colombian Independence Day'' ''20230720'')],
          CalendarProperties = [\<lparr>IANAToken = ''VERSION'', Value = ''2.0''\<rparr>]\<rparr>] ! 0
     = [mockColombianCalendar, mockCanadianCalendar] ! 0 \<and> (2::nat) \<noteq> 0"
  using combineCalendars_inputs_unchanged [OF mock_run] by simp

text \<open>
  Claim C10. The comparator fails with a nil dereference exactly when one of the two
  events it is given carries no \<open>DTSTART\<close> property. When every event of both input
  calendars carries one, \<open>combineCalendars\<close> returns a result: that failure does not
  happen.
\<close>

theorem combineCalendars_no_nil_dereference:
  assumes "sortSlice_contract sortSlice" "cal1 < length h" "cal2 < length h"
    "\<forall>e\<in>set (eventsAt h cal1 @ eventsAt h cal2). hasDtStart e"
  shows "(\<exists>r. combineCalendars sortSlice h cal1 cal2 = Inr r) \<and>
         (\<forall>a b. lessFn a b = Inl NilDereference \<longleftrightarrow> \<not> hasDtStart a \<or> \<not> hasDtStart b)"
  using combineCalendars_dated [OF assms] lessFn_panics by blast

theorem combineCalendars_no_nil_dereference_witness:
  "\<exists>r. combineCalendars insertionSort [mockColombianCalendar, mockCanadianCalendar] 0 1 = Inr r"
  using combineCalendars_no_nil_dereference [OF insertionSort_contract _ _ mock_dated] by simp

section \<open>Claims about the fan-in\<close>

text \<open>
  Claim C2, as amended. In every state that an execution of \<open>aggregateICS\<close> reaches,
  whatever the network and the client do: nothing has panicked, so no value was sent on a
  closed channel; one goroutine was launched for each URL the loop has passed, and for
  each of the configured URLs once the loop is over; \<open>close(eventChan)\<close> ran at most
  once, and when it ran every launched goroutine had left \<open>FetchICS\<close> and run
  \<open>wg.Done()\<close>, and the values received were, as a multiset, exactly the values the calls
  of \<open>FetchICS\<close> send, sentinels included. When \<open>c.Stream\<close> has returned and the client
  had not gone away, the channel was closed once. As long as no goroutine is blocked for
  good, some action other than the client going away or a goroutine blocking can be taken
  until the handler is through, and no execution has more actions than \<open>steps_left\<close>
  allows: with every request answered and a client that keeps reading the channel is
  closed exactly once. Once a goroutine is held up, the channel is never closed.
\<close>

theorem aggregateICS_fan_in:
  assumes "aggregateICS cfg get sched = Some t"
  shows "\<not> panicked t \<and>
     length (fetchers t) + length (toLaunch t) = length icsURLs \<and>
     (pc t \<noteq> Launching \<longrightarrow> length (fetchers t) = length icsURLs) \<and>
     closes t \<le> 1 \<and>
     (0 < closes t \<longrightarrow>
        toLaunch t = [] \<and> (\<forall>f\<in>set (fetchers t). f = Finished) \<and>
        mset (received t) = mset (concat (map (FetchICS get) icsURLs))) \<and>
     ((pc t = Footing \<or> pc t = Ended) \<and> \<not> clientGone t \<longrightarrow> closes t = 1) \<and>
     (pc t \<noteq> Ended \<and> (\<forall>f\<in>set (fetchers t). not_stalled f) \<longrightarrow>
        (\<exists>a s'. cooperative a \<and> exec cfg get a t = Some s')) \<and>
     length sched < steps_left get (start icsURLs) \<and>
     (\<forall>sched' t'. held_up t \<and> run cfg get sched' t = Some t' \<longrightarrow> closes t' = 0)"
proof -
  from assms have r: "run cfg get sched (start icsURLs) = Some t"
    by (simp add: aggregateICS_def)
  from run_inv [OF start_inv r] have inv: "agg_inv cfg get icsURLs t" .
  note I = agg_invD [OF inv]
  have len: "length (fetchers t) + length (toLaunch t) = length icsURLs"
    using I(2,3) by simp
  have full: "length (fetchers t) = length icsURLs" if "toLaunch t = []"
    using len that by simp
  have once: "closes t \<le> 1" using I(7) by simp
  have closed: "toLaunch t = [] \<and> (\<forall>f\<in>set (fetchers t). f = Finished) \<and>
        mset (received t) = mset (concat (map (FetchICS get) icsURLs))" if c: "0 < closes t"
  proof -
    from I(7) c have "closer t = Closed" by (simp split: if_splits)
    with I(5) I(6) have l: "toLaunch t = []" by auto
    from closed_all_Finished [OF inv c] have f: "\<forall>f\<in>set (fetchers t). f = Finished" .
    then have "owed (fetchers t) = {#}" by (rule owed_Finished)
    with full [OF l] I(11) l f show ?thesis by simp
  qed
  have through: "closes t = 1" if "(pc t = Footing \<or> pc t = Ended) \<and> \<not> clientGone t"
    using I(9) I(7) that by auto
  have prog: "\<exists>a s'. cooperative a \<and> exec cfg get a t = Some s'"
    if "pc t \<noteq> Ended \<and> (\<forall>f\<in>set (fetchers t). not_stalled f)"
    using progress [OF inv] that by blast
  have bound: "length sched < steps_left get (start icsURLs)"
    using run_steps_left [OF r] steps_left_pos [OF I(1), of get] by simp
  have never: "closes t' = 0" if "held_up t \<and> run cfg get sched' t = Some t'" for sched' t'
  proof -
    from that have h: "held_up t'" using held_up_run by blast
    from that r have "run cfg get (sched @ sched') (start icsURLs) = Some t'"
      by (simp add: run_append)
    from run_inv [OF start_inv this] have "agg_inv cfg get icsURLs t'" .
    from held_up_open [OF this h] show ?thesis .
  qed
  have launched: "pc t \<noteq> Launching \<longrightarrow> length (fetchers t) = length icsURLs"
    using I(6) full by blast
  from I(1) len launched once closed through prog bound never show ?thesis by blast
qed

theorem aggregateICS_fan_in_witness:
  "\<exists>t. aggregateICS \<lparr>Header = ''H'', Footer = ''F''\<rparr>
          (\<lambda>u. if u = CanadianHolidaysURL
               then Response (beginLF @ endLF @ beginCRLF @ endCRLF) EOF else GetFailed)
          [Launch, Launch, StartCloser, WriteHeader, Deliver 1, Deliver 0, Return 0, Deliver 1,
           Done 0, Return 1, Done 1, Close, EndStream, WriteFooter] = Some t \<and>
        pc t = Ended \<and> \<not> clientGone t \<and> closes t = 1 \<and>
        received t = [beginLF @ endLF, ''Error fetching URL: '' @ ColombianHolidaysURL,
                      beginCRLF @ endCRLF] \<and>
        mset (received t) =
          mset (concat (map (FetchICS (\<lambda>u. if u = CanadianHolidaysURL
               then Response (beginLF @ endLF @ beginCRLF @ endCRLF) EOF else GetFailed)) icsURLs))"
proof -
  let ?cfg = "\<lparr>Header = ''H'', Footer = ''F''\<rparr>"
  let ?get = "\<lambda>u. if u = CanadianHolidaysURL
               then Response (beginLF @ endLF @ beginCRLF @ endCRLF) EOF else GetFailed"
  let ?sched = "[Launch, Launch, StartCloser, WriteHeader, Deliver 1, Deliver 0, Return 0,
     Deliver 1, Done 0, Return 1, Done 1, Close, EndStream, WriteFooter]"
  let ?t = "\<lparr>pc = Ended, toLaunch = [], fetchers = [Finished, Finished], wg = 0,
     closer = Closed, closes = 1,
     received = [beginLF @ endLF, ''Error fetching URL: '' @ ColombianHolidaysURL,
                 beginCRLF @ endCRLF],
     written = [''H'', beginLF @ endLF, ''Error fetching URL: '' @ ColombianHolidaysURL,
                 beginCRLF @ endCRLF, ''F''],
     panicked = False, clientGone = False\<rparr>"
  have e: "aggregateICS ?cfg ?get ?sched = Some ?t" by code_simp
  from aggregateICS_fan_in [OF e] show ?thesis using e by simp
qed

text \<open>
  Claim C2 as stated fails when the client goes away: \<open>c.Stream\<close> returns, the handler
  writes the footer and ends, and both goroutines stay blocked in their send, so
  \<open>wg.Wait()\<close> never returns and the channel is not closed in this state nor, by the
  last part of the theorem above, in any later one.
\<close>

theorem aggregateICS_client_gone_counterexample:
  "aggregateICS \<lparr>Header = ''H'', Footer = ''F''\<rparr> (\<lambda>u. GetFailed)
      [Launch, Launch, StartCloser, WriteHeader, ClientGone, WriteFooter] =
    Some \<lparr>pc = Ended, toLaunch = [],
           fetchers = [Running [''Error fetching URL: '' @ ColombianHolidaysURL],
                       Running [''Error fetching URL: '' @ CanadianHolidaysURL]],
           wg = 2, closer = Waiting, closes = 0, received = [],
           written = [''H'', ''F''], panicked = False, clientGone = True\<rparr> \<and>
   held_up \<lparr>pc = Ended, toLaunch = [],
           fetchers = [Running [''Error fetching URL: '' @ ColombianHolidaysURL],
                       Running [''Error fetching URL: '' @ CanadianHolidaysURL]],
           wg = 2, closer = Waiting, closes = 0, received = [],
           written = [''H'', ''F''], panicked = False, clientGone = True\<rparr> \<and>
   concat (map (FetchICS (\<lambda>u. GetFailed)) icsURLs) =
     [''Error fetching URL: '' @ ColombianHolidaysURL,
      ''Error fetching URL: '' @ CanadianHolidaysURL]"
  by code_simp

end
